theory Spec2Isabelle
  imports Main "HOL-Library.Multiset"
begin

section \<open>Embedding of graphics.py: cells, the grid, the window\<close>

text \<open>
  The maze of \<^verbatim>\<open>graphics.py\<close> is a column-major list of lists of \<^verbatim>\<open>Cell\<close> objects,
  mutated in place by the constructor of \<^verbatim>\<open>Maze\<close>. The embedding passes the maze as a
  record. Python exceptions are values: every subscript \<^verbatim>\<open>cells[i][j]\<close> is a checked
  read (negative subscripts count from the end, as in Python), every dictionary read
  \<^verbatim>\<open>valid_dirs[k]\<close> is a checked lookup, and a method call on a window that is
  \<^verbatim>\<open>None\<close> is an \<^verbatim>\<open>AttributeError\<close>.

  The depth of Python's call stack is not part of the embedding.
\<close>

datatype error = IndexError | KeyError | AttributeError

type_synonym idx = "int \<times> int"

record cell =
  has_left_wall :: bool
  has_right_wall :: bool
  has_top_wall :: bool
  has_bottom_wall :: bool
  cx1 :: int
  cx2 :: int
  cy1 :: int
  cy2 :: int
  visited :: bool
  valid_dirs :: "string \<rightharpoonup> bool"

text \<open>
  \<^verbatim>\<open>Cell.__init__\<close>: four walls, coordinates \<^verbatim>\<open>-1\<close>, not visited, an empty dictionary.
  The window a cell refers to is the window of its maze (one shared object), so it is kept
  in the maze record only.
\<close>

definition Cell_init :: cell where
  "Cell_init = \<lparr>has_left_wall = True, has_right_wall = True, has_top_wall = True,
     has_bottom_wall = True, cx1 = - 1, cx2 = - 1, cy1 = - 1, cy2 = - 1,
     visited = False, valid_dirs = Map.empty\<rparr>"

text \<open>
  Of the window only the lines of \<^verbatim>\<open>Cell.draw_move\<close> are kept: one entry per call, with
  the grid indices of the two cells and the \<^verbatim>\<open>undo\<close> flag (\<^verbatim>\<open>True\<close> is a gray line, drawn
  over the red one). The black and white wall lines of \<^verbatim>\<open>Cell.draw\<close> and the
  \<^verbatim>\<open>redraw\<close>/\<^verbatim>\<open>sleep\<close> of \<^verbatim>\<open>_animate\<close> leave no trace in the record.
\<close>

record window =
  moves :: "(idx \<times> idx \<times> bool) list"

record maze =
  x1 :: int
  y1 :: int
  num_rows :: int
  num_cols :: int
  cell_size_x :: int
  cell_size_y :: int
  win :: "window option"
  cells :: "cell list list"
  seed :: "int option"

subsection \<open>Errors as values\<close>

definition bindE :: "error + 'a \<Rightarrow> ('a \<Rightarrow> error + 'b) \<Rightarrow> error + 'b" where
  "bindE x f = (case x of Inl e \<Rightarrow> Inl e | Inr a \<Rightarrow> f a)"

text \<open>A \<^verbatim>\<open>for\<close> loop over a list, stopping at the first exception.\<close>

primrec for_each :: "'a list \<Rightarrow> ('a \<Rightarrow> 's \<Rightarrow> error + 's) \<Rightarrow> 's \<Rightarrow> error + 's" where
  "for_each [] body s = Inr s"
| "for_each (x # xs) body s = bindE (body x s) (for_each xs body)"

text \<open>\<^verbatim>\<open>range(n)\<close>: empty when \<^verbatim>\<open>n\<close> is not positive.\<close>

definition py_range :: "int \<Rightarrow> int list" where
  "py_range n = map int [0..<nat n]"

text \<open>The position a Python subscript \<^verbatim>\<open>i\<close> denotes in a list of \<^verbatim>\<open>n\<close> items.\<close>

definition subscript :: "nat \<Rightarrow> int \<Rightarrow> error + nat" where
  "subscript n i =
     (if 0 \<le> i \<and> i < int n then Inr (nat i)
      else if i < 0 \<and> - int n \<le> i then Inr (nat (i + int n))
      else Inl IndexError)"

text \<open>\<^verbatim>\<open>self.__cells[i][j]\<close>, read.\<close>

definition cell_at :: "maze \<Rightarrow> int \<Rightarrow> int \<Rightarrow> error + cell" where
  "cell_at m i j =
     bindE (subscript (length (cells m)) i) (\<lambda>k.
     bindE (subscript (length (cells m ! k)) j) (\<lambda>l.
     Inr (cells m ! k ! l)))"

text \<open>\<^verbatim>\<open>self.__cells[i][j].field = v\<close>: the cell object is looked up, then mutated.\<close>

definition cell_set :: "maze \<Rightarrow> int \<Rightarrow> int \<Rightarrow> (cell \<Rightarrow> cell) \<Rightarrow> error + maze" where
  "cell_set m i j f =
     bindE (subscript (length (cells m)) i) (\<lambda>k.
     bindE (subscript (length (cells m ! k)) j) (\<lambda>l.
     Inr (m\<lparr>cells := (cells m)[k := (cells m ! k)[l := f (cells m ! k ! l)]]\<rparr>)))"

subsection \<open>Drawing\<close>

text \<open>
  \<^verbatim>\<open>Maze._animate\<close> calls \<^verbatim>\<open>self.__win.redraw()\<close> without a test: on a maze built with
  \<^verbatim>\<open>win = None\<close> this is an \<^verbatim>\<open>AttributeError\<close>.
\<close>

definition animate :: "maze \<Rightarrow> error + maze" where
  "animate m = (case win m of None \<Rightarrow> Inl AttributeError | Some w \<Rightarrow> Inr m)"

text \<open>
  \<^verbatim>\<open>Maze.__draw_cell\<close> with \<^verbatim>\<open>Cell.draw\<close>: the cell takes its pixel coordinates; lines are
  drawn and the window animated only \<^verbatim>\<open>if self.__win\<close>.
\<close>

definition draw_cell :: "maze \<Rightarrow> int \<Rightarrow> int \<Rightarrow> error + maze" where
  "draw_cell m i j =
     (let left_x_pos = i * cell_size_x m; top_y_pos = j * cell_size_y m in
      bindE (cell_set m i j (\<lambda>c. c\<lparr>cx1 := x1 m + left_x_pos, cy1 := y1 m + top_y_pos,
               cx2 := x1 m + left_x_pos + cell_size_x m,
               cy2 := y1 m + top_y_pos + cell_size_y m\<rparr>)) (\<lambda>m'.
      if win m' \<noteq> None then animate m' else Inr m'))"

text \<open>
  \<^verbatim>\<open>self.__cells[a].draw_move(self.__cells[b], undo)\<close>: both cells are looked up, the line
  is drawn on the window (no test for \<^verbatim>\<open>None\<close>), and an undo also writes \<^verbatim>\<open>False\<close> into
  the \<^verbatim>\<open>valid_dirs\<close> of both cells, by comparing their pixel coordinates.
\<close>

definition mark_dirs :: "maze \<Rightarrow> idx \<Rightarrow> idx \<Rightarrow> bool \<Rightarrow> string \<Rightarrow> string \<Rightarrow> error + maze" where
  "mark_dirs m a b cond here there =
     (if cond then
        bindE (cell_set m (fst a) (snd a) (\<lambda>c. c\<lparr>valid_dirs := (valid_dirs c)(here \<mapsto> False)\<rparr>)) (\<lambda>m'.
        cell_set m' (fst b) (snd b) (\<lambda>c. c\<lparr>valid_dirs := (valid_dirs c)(there \<mapsto> False)\<rparr>))
      else Inr m)"

definition draw_move :: "maze \<Rightarrow> idx \<Rightarrow> idx \<Rightarrow> bool \<Rightarrow> error + maze" where
  "draw_move m a b undo =
     bindE (cell_at m (fst a) (snd a)) (\<lambda>self.
     bindE (cell_at m (fst b) (snd b)) (\<lambda>to_cell.
     case win m of
       None \<Rightarrow> Inl AttributeError
     | Some w \<Rightarrow>
         (let m1 = m\<lparr>win := Some (w\<lparr>moves := moves w @ [(a, b, undo)]\<rparr>)\<rparr> in
          if \<not> undo then Inr m1
          else
            bindE (mark_dirs m1 a b (cx1 self > cx1 to_cell) ''left'' ''right'') (\<lambda>m2.
            bindE (mark_dirs m2 a b (cx1 self < cx1 to_cell) ''right'' ''left'') (\<lambda>m3.
            bindE (mark_dirs m3 a b (cy1 self > cy1 to_cell) ''up'' ''down'') (\<lambda>m4.
            mark_dirs m4 a b (cy1 self < cy1 to_cell) ''down'' ''up''))))))"

subsection \<open>The random module\<close>

text \<open>
  Python's \<^verbatim>\<open>random\<close> module is a library, not code of the repository. Its global state
  is modelled as the list of raw numbers it will produce next (zeros once the list is
  used up), so that a statement for every list covers every sequence of random choices.
  \<^verbatim>\<open>random.choice(seq)\<close> is \<^verbatim>\<open>seq[randbelow(len(seq))]\<close>, and \<^verbatim>\<open>random.shuffle(x)\<close> is
  the loop \<^verbatim>\<open>for i in reversed(range(1, len(x))): j = randbelow(i + 1); x[i], x[j] = x[j], x[i]\<close>.
\<close>

type_synonym rng = "nat list"

definition randbelow :: "nat \<Rightarrow> rng \<Rightarrow> nat \<times> rng" where
  "randbelow n g = (case g of [] \<Rightarrow> (0, []) | r # g' \<Rightarrow> (r mod n, g'))"

definition choice :: "'a list \<Rightarrow> rng \<Rightarrow> 'a \<times> rng" where
  "choice xs g = (let (k, g') = randbelow (length xs) g in (xs ! k, g'))"

fun shuffle_from :: "nat \<Rightarrow> 'a list \<Rightarrow> rng \<Rightarrow> 'a list \<times> rng" where
  "shuffle_from 0 xs g = (xs, g)"
| "shuffle_from (Suc i) xs g =
     (let (j, g') = randbelow (Suc (Suc i)) g
      in shuffle_from i (xs[Suc i := xs ! j, j := xs ! Suc i]) g')"

definition shuffle :: "'a list \<Rightarrow> rng \<Rightarrow> 'a list \<times> rng" where
  "shuffle xs g = shuffle_from (length xs - 1) xs g"

section \<open>Generation\<close>

text \<open>
  A computation that may not return has type \<open>(error + 'a) option\<close>: \<open>None\<close> is a loop
  that never ends, \<open>Some (Inl e)\<close> an exception, \<open>Some (Inr a)\<close> a result.
\<close>

definition bindC :: "(error + 'a) option \<Rightarrow> ('a \<Rightarrow> (error + 'b) option) \<Rightarrow> (error + 'b) option" where
  "bindC x f = Option.bind x (\<lambda>r. case r of Inl e \<Rightarrow> Some (Inl e) | Inr a \<Rightarrow> f a)"

text \<open>\<^verbatim>\<open>guard and not self.__cells[i][j].visited\<close>, then \<^verbatim>\<open>append((i, j))\<close>.\<close>

definition if_unvisited :: "maze \<Rightarrow> bool \<Rightarrow> idx \<Rightarrow> error + idx list" where
  "if_unvisited m guard p =
     (if guard then
        bindE (cell_at m (fst p) (snd p)) (\<lambda>c. Inr (if \<not> visited c then [p] else []))
      else Inr [])"

text \<open>The four tests of \<^verbatim>\<open>__break_walls_r\<close>; the lower bounds are strict (\<^verbatim>\<open>i - 1 > 0\<close>).\<close>

definition need_to_visit :: "maze \<Rightarrow> int \<Rightarrow> int \<Rightarrow> error + idx list" where
  "need_to_visit m i j =
     bindE (if_unvisited m (i - 1 > 0) (i - 1, j)) (\<lambda>l.
     bindE (if_unvisited m (i + 1 < num_cols m) (i + 1, j)) (\<lambda>r.
     bindE (if_unvisited m (j - 1 > 0) (i, j - 1)) (\<lambda>u.
     bindE (if_unvisited m (j + 1 < num_rows m) (i, j + 1)) (\<lambda>d.
     Inr (l @ r @ u @ d)))))"

text \<open>\<^verbatim>\<open>a.w1, b.w2 = False, False\<close>: two assignments, the left one first.\<close>

definition clear_pair :: "maze \<Rightarrow> idx \<Rightarrow> (cell \<Rightarrow> cell) \<Rightarrow> idx \<Rightarrow> (cell \<Rightarrow> cell) \<Rightarrow> error + maze" where
  "clear_pair m a f b h =
     bindE (cell_set m (fst a) (snd a) f) (\<lambda>m'. cell_set m' (fst b) (snd b) h)"

text \<open>The \<^verbatim>\<open>if\<close>/\<^verbatim>\<open>elif\<close> chain of \<^verbatim>\<open>__break_walls_r\<close> that removes one pair of walls.\<close>

definition carve_r :: "maze \<Rightarrow> int \<Rightarrow> int \<Rightarrow> int \<Rightarrow> int \<Rightarrow> error + maze" where
  "carve_r m i j next_index_i next_index_j =
     (if next_index_i < i then
        clear_pair m (i, j) (\<lambda>c. c\<lparr>has_left_wall := False\<rparr>)
          (next_index_i, j) (\<lambda>c. c\<lparr>has_right_wall := False\<rparr>)
      else if next_index_i > i then
        clear_pair m (i, j) (\<lambda>c. c\<lparr>has_right_wall := False\<rparr>)
          (next_index_i, j) (\<lambda>c. c\<lparr>has_left_wall := False\<rparr>)
      else if next_index_j < j then
        clear_pair m (i, j) (\<lambda>c. c\<lparr>has_top_wall := False\<rparr>)
          (i, next_index_j) (\<lambda>c. c\<lparr>has_bottom_wall := False\<rparr>)
      else if next_index_j > j then
        clear_pair m (i, j) (\<lambda>c. c\<lparr>has_bottom_wall := False\<rparr>)
          (i, next_index_j) (\<lambda>c. c\<lparr>has_top_wall := False\<rparr>)
      else Inr m)"

text \<open>
  One pass of the \<^verbatim>\<open>else\<close> branch of the \<^verbatim>\<open>while True\<close> loop up to the recursive call:
  the walls are removed, both cells drawn, and the first statement of the call marks the
  chosen cell visited.
\<close>

definition step_r :: "maze \<Rightarrow> int \<Rightarrow> int \<Rightarrow> idx \<Rightarrow> error + maze" where
  "step_r m i j nxt =
     bindE (carve_r m i j (fst nxt) (snd nxt)) (\<lambda>m1.
     bindE (draw_cell m1 i j) (\<lambda>m2.
     bindE (draw_cell m2 (fst nxt) (snd nxt)) (\<lambda>m3.
     cell_set m3 (fst nxt) (snd nxt) (\<lambda>c. c\<lparr>visited := True\<rparr>))))"

text \<open>
  The \<^verbatim>\<open>while True\<close> loop of \<^verbatim>\<open>__break_walls_r(i, j)\<close>, entered once the cell is marked.
  The recursive call \<^verbatim>\<open>__break_walls_r(next_index_i, next_index_j)\<close> is the marking in
  \<open>step_r\<close> followed by the loop at the chosen cell.
\<close>

partial_function (option) break_walls_r_loop ::
  "maze \<Rightarrow> rng \<Rightarrow> int \<Rightarrow> int \<Rightarrow> (error + maze \<times> rng) option" where
  "break_walls_r_loop m g i j =
     (case need_to_visit m i j of
        Inl e \<Rightarrow> Some (Inl e)
      | Inr need \<Rightarrow>
          if need = [] then
            (case draw_cell m i j of Inl e \<Rightarrow> Some (Inl e) | Inr m' \<Rightarrow> Some (Inr (m', g)))
          else
            (let (nxt, g') = choice need g in
             case step_r m i j nxt of
               Inl e \<Rightarrow> Some (Inl e)
             | Inr m' \<Rightarrow>
                 Option.bind (break_walls_r_loop m' g' (fst nxt) (snd nxt)) (\<lambda>r.
                 case r of
                   Inl e \<Rightarrow> Some (Inl e)
                 | Inr (m'', g'') \<Rightarrow> break_walls_r_loop m'' g'' i j)))"

declare break_walls_r_loop.simps [code]

definition break_walls_r :: "maze \<Rightarrow> rng \<Rightarrow> int \<Rightarrow> int \<Rightarrow> (error + maze \<times> rng) option" where
  "break_walls_r m g i j =
     (case cell_set m i j (\<lambda>c. c\<lparr>visited := True\<rparr>) of
        Inl e \<Rightarrow> Some (Inl e)
      | Inr m' \<Rightarrow> break_walls_r_loop m' g i j)"

text \<open>The four tests of \<^verbatim>\<open>__break_walls_l\<close>; here the lower bounds are \<^verbatim>\<open>i - 1 >= 0\<close>.\<close>

definition indexes_to_visit :: "maze \<Rightarrow> int \<Rightarrow> int \<Rightarrow> error + idx list" where
  "indexes_to_visit m i j =
     bindE (if_unvisited m (i - 1 \<ge> 0) (i - 1, j)) (\<lambda>l.
     bindE (if_unvisited m (i + 1 < num_cols m) (i + 1, j)) (\<lambda>r.
     bindE (if_unvisited m (j - 1 \<ge> 0) (i, j - 1)) (\<lambda>u.
     bindE (if_unvisited m (j + 1 < num_rows m) (i, j + 1)) (\<lambda>d.
     Inr (l @ r @ u @ d)))))"

text \<open>\<^verbatim>\<open>a.valid_dirs[k1], b.valid_dirs[k2] = True, True\<close>.\<close>

definition set_dirs :: "maze \<Rightarrow> idx \<Rightarrow> string \<Rightarrow> idx \<Rightarrow> string \<Rightarrow> error + maze" where
  "set_dirs m a here b there =
     clear_pair m a (\<lambda>c. c\<lparr>valid_dirs := (valid_dirs c)(here \<mapsto> True)\<rparr>)
       b (\<lambda>c. c\<lparr>valid_dirs := (valid_dirs c)(there \<mapsto> True)\<rparr>)"

text \<open>The \<^verbatim>\<open>if\<close>/\<^verbatim>\<open>elif\<close> chain of \<^verbatim>\<open>__break_walls_l\<close>: walls, then direction markers.\<close>

definition carve_l :: "maze \<Rightarrow> int \<Rightarrow> int \<Rightarrow> int \<Rightarrow> int \<Rightarrow> error + maze" where
  "carve_l m i j i_index j_index =
     (if i_index < i then
        bindE (clear_pair m (i, j) (\<lambda>c. c\<lparr>has_left_wall := False\<rparr>)
                 (i_index, j_index) (\<lambda>c. c\<lparr>has_right_wall := False\<rparr>)) (\<lambda>m'.
        set_dirs m' (i, j) ''left'' (i_index, j_index) ''right'')
      else if i_index > i then
        bindE (clear_pair m (i, j) (\<lambda>c. c\<lparr>has_right_wall := False\<rparr>)
                 (i_index, j_index) (\<lambda>c. c\<lparr>has_left_wall := False\<rparr>)) (\<lambda>m'.
        set_dirs m' (i, j) ''right'' (i_index, j_index) ''left'')
      else if j_index < j then
        bindE (clear_pair m (i, j) (\<lambda>c. c\<lparr>has_top_wall := False\<rparr>)
                 (i_index, j_index) (\<lambda>c. c\<lparr>has_bottom_wall := False\<rparr>)) (\<lambda>m'.
        set_dirs m' (i, j) ''up'' (i_index, j_index) ''down'')
      else if j_index > j then
        bindE (clear_pair m (i, j) (\<lambda>c. c\<lparr>has_bottom_wall := False\<rparr>)
                 (i_index, j_index) (\<lambda>c. c\<lparr>has_top_wall := False\<rparr>)) (\<lambda>m'.
        set_dirs m' (i, j) ''down'' (i_index, j_index) ''up'')
      else Inr m)"

text \<open>
  The body of \<^verbatim>\<open>for pair in indexes_to_visit\<close>. The stack is the Python list: the top is
  its last item.
\<close>

definition visit_l :: "int \<Rightarrow> int \<Rightarrow> idx \<Rightarrow> idx list \<times> maze \<Rightarrow> error + idx list \<times> maze" where
  "visit_l i j pair sm =
     (let (stack, m) = sm; (i_index, j_index) = pair in
      bindE (carve_l m i j i_index j_index) (\<lambda>m1.
      bindE (cell_set m1 i_index j_index (\<lambda>c. c\<lparr>visited := True\<rparr>)) (\<lambda>m2.
      bindE (draw_cell m2 i j) (\<lambda>m3.
      bindE (draw_cell m3 i_index j_index) (\<lambda>m4.
      Inr (stack @ [pair], m4))))))"

text \<open>One pass of \<^verbatim>\<open>while stack\<close> in \<^verbatim>\<open>__break_walls_l\<close>, for a stack that is not empty.\<close>

definition pop_l :: "idx list \<Rightarrow> maze \<Rightarrow> rng \<Rightarrow> error + idx list \<times> maze \<times> rng" where
  "pop_l stack m g =
     (let (i, j) = last stack in
      bindE (cell_set m i j (\<lambda>c. c\<lparr>visited := True\<rparr>)) (\<lambda>m1.
      bindE (indexes_to_visit m1 i j) (\<lambda>found.
      let (shuffled, g') = shuffle found g in
      bindE (for_each shuffled (visit_l i j) (butlast stack, m1)) (\<lambda>(stack', m2).
      Inr (stack', m2, g')))))"

partial_function (option) break_walls_l_loop ::
  "idx list \<Rightarrow> maze \<Rightarrow> rng \<Rightarrow> (error + maze \<times> rng) option" where
  "break_walls_l_loop stack m g =
     (if stack = [] then Some (Inr (m, g))
      else
        (case pop_l stack m g of
           Inl e \<Rightarrow> Some (Inl e)
         | Inr (stack', m', g') \<Rightarrow> break_walls_l_loop stack' m' g'))"

declare break_walls_l_loop.simps [code]

definition break_walls_l :: "maze \<Rightarrow> rng \<Rightarrow> int \<Rightarrow> int \<Rightarrow> (error + maze \<times> rng) option" where
  "break_walls_l m g i j = break_walls_l_loop [(i, j)] m g"

section \<open>Solving\<close>

text \<open>
  The test of one direction in \<^verbatim>\<open>_solve_r\<close>:
  \<^verbatim>\<open>not here.wall and not there.wall and not there.visited\<close> under its guard, with
  Python's short-circuit evaluation (the neighbour is read only if this cell has no wall).
\<close>

definition can_enter ::
  "maze \<Rightarrow> bool \<Rightarrow> idx \<Rightarrow> (cell \<Rightarrow> bool) \<Rightarrow> idx \<Rightarrow> (cell \<Rightarrow> bool) \<Rightarrow> error + bool" where
  "can_enter m guard a wall_here b wall_there =
     (if guard then
        bindE (cell_at m (fst a) (snd a)) (\<lambda>c.
        if wall_here c then Inr False
        else bindE (cell_at m (fst b) (snd b)) (\<lambda>n.
             Inr (\<not> wall_there n \<and> \<not> visited n)))
      else Inr False)"

text \<open>What follows the recursive call: \<^verbatim>\<open>return True\<close>, or the undo of the move.\<close>

definition after_call :: "idx \<Rightarrow> idx \<Rightarrow> error + bool \<times> maze \<Rightarrow> error + bool \<times> maze" where
  "after_call a b r =
     bindE r (\<lambda>(found, m).
     if found then Inr (True, m)
     else bindE (draw_move m a b True) (\<lambda>m'. Inr (False, m')))"

partial_function (option) solve_r :: "maze \<Rightarrow> int \<Rightarrow> int \<Rightarrow> (error + bool \<times> maze) option" where
  "solve_r m i j =
     (case bindE (animate m) (\<lambda>m0. cell_set m0 i j (\<lambda>c. c\<lparr>visited := True\<rparr>)) of
        Inl e \<Rightarrow> Some (Inl e)
      | Inr m1 \<Rightarrow>
      if i + 1 = num_cols m1 \<and> j + 1 = num_rows m1 then Some (Inr (True, m1))
      else
        Option.bind
          (case can_enter m1 (i - 1 > 0) (i, j) has_left_wall (i - 1, j) has_right_wall of
             Inl e \<Rightarrow> Some (Inl e)
           | Inr go \<Rightarrow>
               if \<not> go then Some (Inr (False, m1))
               else (case draw_move m1 (i, j) (i - 1, j) False of
                       Inl e \<Rightarrow> Some (Inl e)
                     | Inr m' \<Rightarrow> Option.bind (solve_r m' (i - 1) j) (\<lambda>r. Some (after_call (i, j) (i - 1, j) r))))
        (\<lambda>r1. case r1 of Inl e \<Rightarrow> Some (Inl e) | Inr (found1, m2) \<Rightarrow>
        if found1 then Some (Inr (True, m2))
        else
        Option.bind
          (case can_enter m2 (i < num_cols m2) (i, j) has_right_wall (i + 1, j) has_left_wall of
             Inl e \<Rightarrow> Some (Inl e)
           | Inr go \<Rightarrow>
               if \<not> go then Some (Inr (False, m2))
               else (case draw_move m2 (i, j) (i + 1, j) False of
                       Inl e \<Rightarrow> Some (Inl e)
                     | Inr m' \<Rightarrow> Option.bind (solve_r m' (i + 1) j) (\<lambda>r. Some (after_call (i, j) (i + 1, j) r))))
        (\<lambda>r2. case r2 of Inl e \<Rightarrow> Some (Inl e) | Inr (found2, m3) \<Rightarrow>
        if found2 then Some (Inr (True, m3))
        else
        Option.bind
          (case can_enter m3 (j - 1 > 0) (i, j) has_top_wall (i, j - 1) has_bottom_wall of
             Inl e \<Rightarrow> Some (Inl e)
           | Inr go \<Rightarrow>
               if \<not> go then Some (Inr (False, m3))
               else (case draw_move m3 (i, j) (i, j - 1) False of
                       Inl e \<Rightarrow> Some (Inl e)
                     | Inr m' \<Rightarrow> Option.bind (solve_r m' i (j - 1)) (\<lambda>r. Some (after_call (i, j) (i, j - 1) r))))
        (\<lambda>r3. case r3 of Inl e \<Rightarrow> Some (Inl e) | Inr (found3, m4) \<Rightarrow>
        if found3 then Some (Inr (True, m4))
        else
        Option.bind
          (case can_enter m4 (j < num_rows m4) (i, j) has_bottom_wall (i, j + 1) has_top_wall of
             Inl e \<Rightarrow> Some (Inl e)
           | Inr go \<Rightarrow>
               if \<not> go then Some (Inr (False, m4))
               else (case draw_move m4 (i, j) (i, j + 1) False of
                       Inl e \<Rightarrow> Some (Inl e)
                     | Inr m' \<Rightarrow> Option.bind (solve_r m' i (j + 1)) (\<lambda>r. Some (after_call (i, j) (i, j + 1) r))))
        (\<lambda>r4. case r4 of Inl e \<Rightarrow> Some (Inl e) | Inr (found4, m5) \<Rightarrow>
        if found4 then Some (Inr (True, m5)) else Some (Inr (False, m5)))))))"

declare solve_r.simps [code]

text \<open>
  One of the four blocks of \<^verbatim>\<open>_solve_l\<close>: under its guard, if this cell has no wall on
  that side and the neighbour is not visited, the neighbour is marked, the move drawn,
  the neighbour pushed, and the move is undone only if \<^verbatim>\<open>valid_dirs[key]\<close> of this cell
  is false.
\<close>

definition explore_l ::
  "bool \<Rightarrow> idx \<Rightarrow> (cell \<Rightarrow> bool) \<Rightarrow> string \<Rightarrow> idx \<Rightarrow> idx list \<times> maze \<Rightarrow> error + idx list \<times> maze" where
  "explore_l guard a wall_here key b sm =
     (let (stack, m) = sm in
      if guard then
        bindE (cell_at m (fst a) (snd a)) (\<lambda>c.
        if wall_here c then Inr (stack, m)
        else
          bindE (cell_at m (fst b) (snd b)) (\<lambda>n.
          if visited n then Inr (stack, m)
          else
            bindE (cell_set m (fst b) (snd b) (\<lambda>c. c\<lparr>visited := True\<rparr>)) (\<lambda>m1.
            bindE (draw_move m1 a b False) (\<lambda>m2.
            bindE (animate m2) (\<lambda>m3.
            bindE (cell_at m3 (fst a) (snd a)) (\<lambda>c'.
            case valid_dirs c' key of
              None \<Rightarrow> Inl KeyError
            | Some v \<Rightarrow>
                if \<not> v then bindE (draw_move m3 a b True) (\<lambda>m4. Inr (stack @ [b], m4))
                else Inr (stack @ [b], m3)))))))
      else Inr (stack, m))"

text \<open>The four blocks, for the cell \<^verbatim>\<open>(i, j)\<close> just popped.\<close>

definition pop_solve_l :: "int \<Rightarrow> int \<Rightarrow> idx list \<times> maze \<Rightarrow> error + idx list \<times> maze" where
  "pop_solve_l i j sm =
     bindE (explore_l (i - 1 \<ge> 0) (i, j) has_left_wall ''left'' (i - 1, j) sm) (\<lambda>sm1.
     bindE (explore_l (i + 1 < num_cols (snd sm1)) (i, j) has_right_wall ''right'' (i + 1, j) sm1) (\<lambda>sm2.
     bindE (explore_l (j - 1 \<ge> 0) (i, j) has_top_wall ''up'' (i, j - 1) sm2) (\<lambda>sm3.
     explore_l (j + 1 < num_rows (snd sm3)) (i, j) has_bottom_wall ''down'' (i, j + 1) sm3)))"

partial_function (option) solve_l_loop :: "idx list \<Rightarrow> maze \<Rightarrow> (error + maze) option" where
  "solve_l_loop stack m =
     (if stack = [] then Some (Inr m)
      else
        (let (i, j) = last stack in
         if i + 1 = num_cols m \<and> j + 1 = num_rows m then Some (Inr m)
         else
           (case pop_solve_l i j (butlast stack, m) of
              Inl e \<Rightarrow> Some (Inl e)
            | Inr (stack', m') \<Rightarrow> solve_l_loop stack' m')))"

declare solve_l_loop.simps [code]

definition solve_l :: "maze \<Rightarrow> int \<Rightarrow> int \<Rightarrow> (error + maze) option" where
  "solve_l m i j = solve_l_loop [(i, j)] m"

text \<open>\<^verbatim>\<open>Maze.solve\<close> drops the result of \<^verbatim>\<open>_solve_r\<close>; \<^verbatim>\<open>_solve_l\<close> has none.\<close>

definition solve :: "maze \<Rightarrow> (error + maze) option" where
  "solve m =
     (if num_cols m * num_rows m < 1000 then
        bindC (solve_r m 0 0) (\<lambda>(found, m'). Some (Inr m'))
      else solve_l m 0 0)"

section \<open>Construction\<close>

text \<open>The two loops of \<^verbatim>\<open>__reset_cells_visited\<close>, and the call of \<^verbatim>\<open>solve\<close> that ends it.\<close>

definition clear_visited :: "maze \<Rightarrow> error + maze" where
  "clear_visited m =
     for_each (py_range (num_cols m)) (\<lambda>i.
       for_each (py_range (num_rows m)) (\<lambda>j m'.
         cell_set m' i j (\<lambda>c. c\<lparr>visited := False\<rparr>))) m"

definition reset_cells_visited :: "maze \<Rightarrow> (error + maze) option" where
  "reset_cells_visited m = bindC (Some (clear_visited m)) solve"

text \<open>The first four statements of \<^verbatim>\<open>__break_entrance_and_exit\<close>.\<close>

definition open_entrance_and_exit :: "maze \<Rightarrow> error + maze" where
  "open_entrance_and_exit m =
     bindE (cell_set m 0 0 (\<lambda>c. c\<lparr>has_top_wall := False\<rparr>)) (\<lambda>m1.
     bindE (cell_set m1 (num_cols m1 - 1) (num_rows m1 - 1) (\<lambda>c. c\<lparr>has_bottom_wall := False\<rparr>)) (\<lambda>m2.
     bindE (draw_cell m2 0 0) (\<lambda>m3.
     draw_cell m3 (num_cols m3 - 1) (num_rows m3 - 1))))"

text \<open>Its choice of a carver by the number of cells.\<close>

definition break_walls :: "maze \<Rightarrow> rng \<Rightarrow> (error + maze \<times> rng) option" where
  "break_walls m g =
     (if num_cols m * num_rows m < 1000 then break_walls_r m g 0 0
      else break_walls_l m g 0 0)"

definition break_entrance_and_exit :: "maze \<Rightarrow> rng \<Rightarrow> (error + maze \<times> rng) option" where
  "break_entrance_and_exit m g =
     bindC (Some (open_entrance_and_exit m)) (\<lambda>m1.
     bindC (break_walls m1 g) (\<lambda>(m2, g').
     bindC (reset_cells_visited m2) (\<lambda>m3. Some (Inr (m3, g')))))"

text \<open>The loops of \<^verbatim>\<open>__create_cells\<close>.\<close>

definition append_cell :: "maze \<Rightarrow> int \<Rightarrow> error + maze" where
  "append_cell m i =
     bindE (subscript (length (cells m)) i) (\<lambda>k.
     Inr (m\<lparr>cells := (cells m)[k := cells m ! k @ [Cell_init]]\<rparr>))"

definition new_column :: "int \<Rightarrow> maze \<Rightarrow> error + maze" where
  "new_column i m =
     for_each (py_range (num_rows m)) (\<lambda>j m'.
       bindE (append_cell m' i) (\<lambda>m''. draw_cell m'' i j))
       (m\<lparr>cells := cells m @ [[]]\<rparr>)"

definition new_cells :: "maze \<Rightarrow> error + maze" where
  "new_cells m = for_each (py_range (num_cols m)) new_column m"

definition create_cells :: "maze \<Rightarrow> rng \<Rightarrow> (error + maze \<times> rng) option" where
  "create_cells m g =
     bindC (Some (new_cells m)) (\<lambda>m'.
     if num_cols m' > 0 \<and> num_rows m' > 0 then break_entrance_and_exit m' g
     else Some (Inr (m', g)))"

text \<open>
  \<^verbatim>\<open>Maze.__init__\<close>. The random state \<open>g\<close> is the state of the module when the
  constructor is entered; \<open>seeder\<close> stands for \<^verbatim>\<open>random.seed\<close>, the state a seed
  produces. The cells are created, carved and solved first; the seed is applied last,
  and only if it is truthy (neither \<^verbatim>\<open>None\<close> nor \<^verbatim>\<open>0\<close>).
\<close>

definition Maze_fields :: "window option \<Rightarrow> int \<Rightarrow> int \<Rightarrow> int \<Rightarrow> int \<Rightarrow> int \<Rightarrow> int \<Rightarrow> maze" where
  "Maze_fields w n_rows n_cols size_x size_y px py =
     \<lparr>x1 = px, y1 = py, num_rows = n_rows, num_cols = n_cols,
      cell_size_x = size_x, cell_size_y = size_y, win = w, cells = [], seed = None\<rparr>"

definition Maze_init ::
  "(int \<Rightarrow> rng) \<Rightarrow> window option \<Rightarrow> int \<Rightarrow> int \<Rightarrow> int \<Rightarrow> int \<Rightarrow> int \<Rightarrow> int \<Rightarrow> int option \<Rightarrow> rng
     \<Rightarrow> (error + maze \<times> rng) option" where
  "Maze_init seeder w n_rows n_cols size_x size_y px py sd g =
     bindC (create_cells (Maze_fields w n_rows n_cols size_x size_y px py) g) (\<lambda>(m, g').
     Some (Inr (m\<lparr>seed := sd\<rparr>,
       (case sd of None \<Rightarrow> g' | Some k \<Rightarrow> if k \<noteq> 0 then seeder k else g'))))"

section \<open>What is observed of a maze\<close>

text \<open>
  The phases of the constructor, named so that statements can speak of the maze between
  them: \<open>carved\<close> is the maze when the carver returns, \<open>before_solve\<close> the maze that
  \<^verbatim>\<open>solve\<close> is called on.
\<close>

definition carved :: "maze \<Rightarrow> rng \<Rightarrow> (error + maze \<times> rng) option" where
  "carved m g =
     bindC (Some (new_cells m)) (\<lambda>m0.
     bindC (Some (open_entrance_and_exit m0)) (\<lambda>m1. break_walls m1 g))"

definition before_solve :: "maze \<Rightarrow> rng \<Rightarrow> (error + maze \<times> rng) option" where
  "before_solve m g =
     bindC (carved m g) (\<lambda>(m2, g').
     bindC (Some (clear_visited m2)) (\<lambda>m3. Some (Inr (m3, g'))))"

text \<open>The cell at a pair of indices inside the grid, and the indices inside the grid.\<close>

definition the_cell :: "maze \<Rightarrow> idx \<Rightarrow> cell" where
  "the_cell m p = cells m ! nat (fst p) ! nat (snd p)"

definition in_grid :: "maze \<Rightarrow> idx \<Rightarrow> bool" where
  "in_grid m p = (0 \<le> fst p \<and> fst p < num_cols m \<and> 0 \<le> snd p \<and> snd p < num_rows m)"

definition grid_cells :: "maze \<Rightarrow> idx list" where
  "grid_cells m = concat (map (\<lambda>i. map (\<lambda>j. (i, j)) (py_range (num_rows m))) (py_range (num_cols m)))"

text \<open>The list of lists has \<^verbatim>\<open>num_cols\<close> columns of \<^verbatim>\<open>num_rows\<close> cells.\<close>

definition grid_ok :: "maze \<Rightarrow> bool" where
  "grid_ok m = (length (cells m) = nat (num_cols m) \<and>
     list_all (\<lambda>col. length col = nat (num_rows m)) (cells m))"

text \<open>The four wall flags of every cell.\<close>

definition layout :: "maze \<Rightarrow> (bool \<times> bool \<times> bool \<times> bool) list list" where
  "layout m = map (map (\<lambda>c. (has_left_wall c, has_right_wall c, has_top_wall c, has_bottom_wall c))) (cells m)"

text \<open>
  The lines of \<^verbatim>\<open>draw_move\<close> on the window, in the order drawn, and the path they leave:
  a red line is on the path until a gray line is drawn over it.
\<close>

definition drawn :: "maze \<Rightarrow> (idx \<times> idx \<times> bool) list" where
  "drawn m = (case win m of None \<Rightarrow> [] | Some w \<Rightarrow> moves w)"

fun red_lines :: "(idx \<times> idx \<times> bool) list \<Rightarrow> (idx \<times> idx) list \<Rightarrow> (idx \<times> idx) list" where
  "red_lines [] acc = acc"
| "red_lines ((a, b, undo) # ls) acc =
     (if undo then red_lines ls (filter (\<lambda>s. s \<noteq> (a, b) \<and> s \<noteq> (b, a)) acc)
      else red_lines ls (acc @ [(a, b)]))"

definition reported_path :: "maze \<Rightarrow> idx list" where
  "reported_path m = (0, 0) # map snd (red_lines (drawn m) [])"

text \<open>
  A passage is a pair of neighbouring cells (the left or upper one first) with no wall on
  either side of their common edge.
\<close>

definition open_right :: "maze \<Rightarrow> idx \<Rightarrow> bool" where
  "open_right m p = (\<not> has_right_wall (the_cell m p) \<and> \<not> has_left_wall (the_cell m (fst p + 1, snd p)))"

definition open_down :: "maze \<Rightarrow> idx \<Rightarrow> bool" where
  "open_down m p = (\<not> has_bottom_wall (the_cell m p) \<and> \<not> has_top_wall (the_cell m (fst p, snd p + 1)))"

definition passages :: "maze \<Rightarrow> (idx \<times> idx) list" where
  "passages m =
     map (\<lambda>p. (p, (fst p + 1, snd p)))
       (filter (\<lambda>p. fst p + 1 < num_cols m \<and> open_right m p) (grid_cells m)) @
     map (\<lambda>p. (p, (fst p, snd p + 1)))
       (filter (\<lambda>p. snd p + 1 < num_rows m \<and> open_down m p) (grid_cells m))"

text \<open>
  Two cells are joined by a list of passages when a walk along the passages, in either
  direction, leads from one to the other. The maze is connected when every cell is
  joined to \<open>(0, 0)\<close>. It has no cycle when every passage is the only connection of
  its two cells: without it they are not joined. (A graph has no cycle exactly when
  each of its edges is such a bridge.)
\<close>

definition joined :: "('a \<times> 'a) list \<Rightarrow> ('a \<times> 'a) set" where
  "joined ps = (set ps \<union> (set ps)\<inverse>)\<^sup>*"

definition connected_maze :: "maze \<Rightarrow> bool" where
  "connected_maze m = list_all (\<lambda>p. ((0, 0), p) \<in> joined (passages m)) (grid_cells m)"

definition cycle_free :: "maze \<Rightarrow> bool" where
  "cycle_free m = list_all (\<lambda>e. e \<notin> joined (removeAll e (passages m))) (passages m)"

text \<open>
  Wall flags of neighbouring cells agree: the right wall of a cell is the left wall of
  its right neighbour, its bottom wall the top wall of the cell below.
\<close>

definition wall_consistent :: "maze \<Rightarrow> bool" where
  "wall_consistent m = list_all (\<lambda>p.
       (fst p + 1 < num_cols m \<longrightarrow>
          has_right_wall (the_cell m p) = has_left_wall (the_cell m (fst p + 1, snd p))) \<and>
       (snd p + 1 < num_rows m \<longrightarrow>
          has_bottom_wall (the_cell m p) = has_top_wall (the_cell m (fst p, snd p + 1))))
     (grid_cells m)"

section \<open>Notions used in the proofs\<close>

text \<open>The maze with one cell changed, for indices inside the grid.\<close>

definition upd :: "maze \<Rightarrow> idx \<Rightarrow> (cell \<Rightarrow> cell) \<Rightarrow> maze" where
  "upd m p f = m\<lparr>cells := (cells m)[nat (fst p) :=
      (cells m ! nat (fst p))[nat (snd p) := f (the_cell m p)]]\<rparr>"

text \<open>The neighbours each carver looks at, visited or not.\<close>

definition neighbours_r :: "maze \<Rightarrow> idx \<Rightarrow> idx list" where
  "neighbours_r m p =
     (if fst p - 1 > 0 then [(fst p - 1, snd p)] else []) @
     (if fst p + 1 < num_cols m then [(fst p + 1, snd p)] else []) @
     (if snd p - 1 > 0 then [(fst p, snd p - 1)] else []) @
     (if snd p + 1 < num_rows m then [(fst p, snd p + 1)] else [])"

definition neighbours_l :: "maze \<Rightarrow> idx \<Rightarrow> idx list" where
  "neighbours_l m p =
     (if fst p - 1 \<ge> 0 then [(fst p - 1, snd p)] else []) @
     (if fst p + 1 < num_cols m then [(fst p + 1, snd p)] else []) @
     (if snd p - 1 \<ge> 0 then [(fst p, snd p - 1)] else []) @
     (if snd p + 1 < num_rows m then [(fst p, snd p + 1)] else [])"

text \<open>The visited cells, the passages as a set, and the passage between two neighbours.\<close>

definition visited_set :: "maze \<Rightarrow> idx set" where
  "visited_set m = {p. in_grid m p \<and> visited (the_cell m p)}"

definition passage_set :: "maze \<Rightarrow> (idx \<times> idx) set" where
  "passage_set m = {(p, q). in_grid m p \<and> in_grid m q \<and>
     ((q = (fst p + 1, snd p) \<and> open_right m p) \<or> (q = (fst p, snd p + 1) \<and> open_down m p))}"

definition edge :: "idx \<Rightarrow> idx \<Rightarrow> idx \<times> idx" where
  "edge a b = (if fst a < fst b \<or> snd a < snd b then (a, b) else (b, a))"

text \<open>
  A tree grown from a root: the edges lie inside the vertices, there is one edge less than
  vertices, every vertex is reached from the root, and every edge is a bridge.
\<close>

definition sym_reach :: "('a \<times> 'a) set \<Rightarrow> ('a \<times> 'a) set" where
  "sym_reach E = (E \<union> E\<inverse>)\<^sup>*"

definition tree_on :: "'a \<Rightarrow> 'a set \<Rightarrow> ('a \<times> 'a) set \<Rightarrow> bool" where
  "tree_on r V E = (finite V \<and> r \<in> V \<and> E \<subseteq> V \<times> V \<and> card E + 1 = card V \<and>
     (\<forall>v\<in>V. (r, v) \<in> sym_reach E) \<and> (\<forall>e\<in>E. e \<notin> sym_reach (E - {e})))"

text \<open>Neighbours in the grid, and the walls of the border that no carver opens.\<close>

definition adjacent :: "idx \<Rightarrow> idx \<Rightarrow> bool" where
  "adjacent a b = (b = (fst a - 1, snd a) \<or> b = (fst a + 1, snd a) \<or> b = (fst a, snd a - 1) \<or> b = (fst a, snd a + 1))"

definition border_ok :: "maze \<Rightarrow> bool" where
  "border_ok m = (\<forall>p. in_grid m p \<longrightarrow>
     (fst p + 1 = num_cols m \<longrightarrow> has_right_wall (the_cell m p)) \<and>
     (snd p + 1 = num_rows m \<and> fst p + 1 \<noteq> num_cols m \<longrightarrow> has_bottom_wall (the_cell m p)))"

text \<open>
  What two mazes share: the fields other than the cells and the window, the walls, the
  markers \<^verbatim>\<open>valid_dirs\<close>, the visited flags; \<open>only_coords\<close> and \<open>unmarked\<close> combine them.
\<close>

definition same_frame :: "maze \<Rightarrow> maze \<Rightarrow> bool" where
  "same_frame m m' = (grid_ok m' \<and> num_cols m' = num_cols m \<and> num_rows m' = num_rows m \<and>
     x1 m' = x1 m \<and> y1 m' = y1 m \<and> cell_size_x m' = cell_size_x m \<and>
     cell_size_y m' = cell_size_y m \<and> seed m' = seed m)"

definition same_walls :: "maze \<Rightarrow> maze \<Rightarrow> bool" where
  "same_walls m m' = (\<forall>q. in_grid m q \<longrightarrow>
     has_left_wall (the_cell m' q) = has_left_wall (the_cell m q) \<and>
     has_right_wall (the_cell m' q) = has_right_wall (the_cell m q) \<and>
     has_top_wall (the_cell m' q) = has_top_wall (the_cell m q) \<and>
     has_bottom_wall (the_cell m' q) = has_bottom_wall (the_cell m q))"

definition same_dirs :: "maze \<Rightarrow> maze \<Rightarrow> bool" where
  "same_dirs m m' = (\<forall>q. in_grid m q \<longrightarrow> valid_dirs (the_cell m' q) = valid_dirs (the_cell m q))"

text \<open>
  The invariant of both carvers: the walls of neighbours agree, the border is closed, and
  the passages are a tree on the set \<open>V\<close> of cells reached so far.
\<close>

definition Inv0 :: "maze \<Rightarrow> idx set \<Rightarrow> bool" where
  "Inv0 m V = (grid_ok m \<and> wall_consistent m \<and> border_ok m \<and> tree_on (0, 0) V (passage_set m))"

definition same_marks :: "maze \<Rightarrow> maze \<Rightarrow> bool" where
  "same_marks m m' = (\<forall>q. in_grid m q \<longrightarrow> visited (the_cell m' q) = visited (the_cell m q))"

definition only_coords :: "maze \<Rightarrow> maze \<Rightarrow> bool" where
  "only_coords m m' = (same_frame m m' \<and> same_walls m m' \<and> same_dirs m m' \<and> same_marks m m'
     \<and> win m' = win m)"

text \<open>
  The recursive carver: the cells not visited, the steps it can take along passages (with
  its strict bounds), and its invariant, that every visited cell is reached from
  \<open>(0, 0)\<close> by such steps.
\<close>

definition unvisited :: "maze \<Rightarrow> idx set" where
  "unvisited m = {p. in_grid m p \<and> \<not> visited (the_cell m p)}"

definition closed_r :: "maze \<Rightarrow> idx set \<Rightarrow> bool" where
  "closed_r m S = (\<forall>p\<in>S. set (neighbours_r m p) \<subseteq> visited_set m)"

definition steps_r :: "maze \<Rightarrow> (idx \<times> idx) set" where
  "steps_r m = {(a, b). in_grid m a \<and> b \<in> set (neighbours_r m a) \<and> edge a b \<in> passage_set m}"

definition reach_r :: "maze \<Rightarrow> bool" where
  "reach_r m = (\<forall>v\<in>visited_set m. ((0, 0), v) \<in> (steps_r m)\<^sup>*)"

definition InvR :: "maze \<Rightarrow> bool" where
  "InvR m = (Inv0 m (visited_set m) \<and> reach_r m)"

text \<open>The cell that \<^verbatim>\<open>__create_cells\<close> makes, and the maze the carver starts on.\<close>

definition fresh_cell :: "maze \<Rightarrow> int \<Rightarrow> int \<Rightarrow> cell" where
  "fresh_cell m i j = Cell_init\<lparr>cx1 := x1 m + i * cell_size_x m, cy1 := y1 m + j * cell_size_y m,
     cx2 := x1 m + i * cell_size_x m + cell_size_x m,
     cy2 := y1 m + j * cell_size_y m + cell_size_y m\<rparr>"

definition Start :: "maze \<Rightarrow> bool" where
  "Start m = (grid_ok m \<and> 0 < num_cols m \<and> 0 < num_rows m \<and>
     (\<forall>p. in_grid m p \<longrightarrow> has_left_wall (the_cell m p) \<and> has_right_wall (the_cell m p) \<and>
        has_top_wall (the_cell m p) = (p \<noteq> (0, 0)) \<and>
        has_bottom_wall (the_cell m p) = (p \<noteq> (num_cols m - 1, num_rows m - 1)) \<and>
        \<not> visited (the_cell m p) \<and> valid_dirs (the_cell m p) = Map.empty))"

text \<open>
  The iterative carver: the key of \<^verbatim>\<open>valid_dirs\<close> for the direction from a cell to a
  neighbour, the markers of all passages set, and the invariant of its loop.
\<close>

definition dir_key :: "idx \<Rightarrow> idx \<Rightarrow> string" where
  "dir_key a b = (if fst b < fst a then ''left'' else if fst b > fst a then ''right''
     else if snd b < snd a then ''up'' else ''down'')"

definition dirs_ok :: "maze \<Rightarrow> bool" where
  "dirs_ok m = (\<forall>p q. in_grid m p \<and> in_grid m q \<and> adjacent p q \<and> edge p q \<in> passage_set m
     \<longrightarrow> valid_dirs (the_cell m p) (dir_key p q) = Some True)"

definition InvL :: "idx list \<Rightarrow> maze \<Rightarrow> bool" where
  "InvL stack m = (Inv0 m (visited_set m \<union> set stack) \<and> dirs_ok m \<and>
     (\<forall>p\<in>set stack. in_grid m p) \<and> set (butlast stack) \<subseteq> visited_set m \<and>
     (\<forall>p\<in>visited_set m. p \<in> set stack \<or> set (neighbours_l m p) \<subseteq> visited_set m \<union> set stack))"

text \<open>No marker set at all, and two mazes that differ in visited flags and coordinates only.\<close>

definition no_dirs :: "maze \<Rightarrow> bool" where
  "no_dirs m = (\<forall>p. in_grid m p \<longrightarrow> valid_dirs (the_cell m p) = Map.empty)"

definition unmarked :: "maze \<Rightarrow> maze \<Rightarrow> bool" where
  "unmarked m m' = (same_frame m m' \<and> same_walls m m' \<and> same_dirs m m' \<and> win m' = win m)"

text \<open>m' is m with the two walls between the neighbours a and b removed; visited flags,
  markers and coordinates may differ.\<close>

definition links :: "maze \<Rightarrow> idx \<Rightarrow> idx \<Rightarrow> maze \<Rightarrow> bool" where
  "links m a b m' = (grid_ok m' \<and> num_cols m' = num_cols m \<and> num_rows m' = num_rows m \<and>
     (\<forall>q. in_grid m q \<longrightarrow>
        has_left_wall (the_cell m' q) = (has_left_wall (the_cell m q) \<and>
           \<not> (q = a \<and> b = (fst a - 1, snd a)) \<and> \<not> (q = b \<and> a = (fst b - 1, snd b))) \<and>
        has_right_wall (the_cell m' q) = (has_right_wall (the_cell m q) \<and>
           \<not> (q = a \<and> b = (fst a + 1, snd a)) \<and> \<not> (q = b \<and> a = (fst b + 1, snd b))) \<and>
        has_top_wall (the_cell m' q) = (has_top_wall (the_cell m q) \<and>
           \<not> (q = a \<and> b = (fst a, snd a - 1)) \<and> \<not> (q = b \<and> a = (fst b, snd b - 1))) \<and>
        has_bottom_wall (the_cell m' q) = (has_bottom_wall (the_cell m q) \<and>
           \<not> (q = a \<and> b = (fst a, snd a + 1)) \<and> \<not> (q = b \<and> a = (fst b, snd b + 1)))))"

text \<open>m' is m with the markers of the passage from a to b set, and nothing else of the
  markers changed.\<close>

definition marks_pair :: "maze \<Rightarrow> idx \<Rightarrow> idx \<Rightarrow> maze \<Rightarrow> bool" where
  "marks_pair m a b m' = (\<forall>q. in_grid m q \<longrightarrow> valid_dirs (the_cell m' q) =
     (if q = a then (valid_dirs (the_cell m q))(dir_key a b \<mapsto> True)
      else if q = b then (valid_dirs (the_cell m q))(dir_key b a \<mapsto> True)
      else valid_dirs (the_cell m q)))"

text \<open>The iterative solver: two neighbouring cells with a passage between them.\<close>

definition open_to :: "maze \<Rightarrow> idx \<Rightarrow> idx \<Rightarrow> bool" where
  "open_to m a b = (edge a b \<in> passage_set m)"

text \<open>
  What the four blocks of \<^verbatim>\<open>_solve_l\<close> do for the popped cell \<open>a\<close>: the walls and the
  markers stay, and some neighbours \<open>ts\<close> of \<open>a\<close>, unvisited before and reached by a
  passage, are marked, pushed and joined to \<open>a\<close> by a red line, in this order.
\<close>

definition explored :: "idx \<Rightarrow> idx list \<times> maze \<Rightarrow> idx list \<times> maze \<Rightarrow> bool" where
  "explored a sm sm' = (same_frame (snd sm) (snd sm') \<and> same_walls (snd sm) (snd sm') \<and>
     same_dirs (snd sm) (snd sm') \<and> win (snd sm') \<noteq> None \<and>
     (\<exists>ts. fst sm' = fst sm @ ts \<and> drawn (snd sm') = drawn (snd sm) @ map (\<lambda>b. (a, b, False)) ts \<and>
        distinct ts \<and> visited_set (snd sm') = visited_set (snd sm) \<union> set ts \<and>
        set ts \<inter> visited_set (snd sm) = {} \<and>
        (\<forall>b\<in>set ts. in_grid (snd sm) b \<and> adjacent a b \<and> open_to (snd sm) a b)))"

text \<open>What the iterative solver needs of a maze to run without an exception.\<close>

definition solvable :: "maze \<Rightarrow> bool" where
  "solvable m = (grid_ok m \<and> wall_consistent m \<and> dirs_ok m \<and> win m \<noteq> None)"

text \<open>The exit, a red line, and the maze that \<^verbatim>\<open>solve\<close> is called on when it has 1000 cells or more.\<close>

definition exit_of :: "maze \<Rightarrow> idx" where
  "exit_of m = (num_cols m - 1, num_rows m - 1)"

definition red :: "idx \<times> idx \<Rightarrow> idx \<times> idx \<times> bool" where
  "red e = (fst e, snd e, False)"

definition large_start :: "maze \<Rightarrow> bool" where
  "large_start m = (Inv0 m {p. in_grid m p} \<and> dirs_ok m \<and> win m \<noteq> None \<and> visited_set m = {} \<and>
     0 < num_cols m \<and> 0 < num_rows m \<and> \<not> num_cols m * num_rows m < 1000)"

text \<open>
  The invariant of the loop of \<^verbatim>\<open>_solve_l\<close>, started on \<open>m0\<close>. The lines drawn are red
  lines \<open>es\<close> along passages, one into each visited cell. Either nothing has been popped
  yet, or every neighbour of the entrance that a passage leads to is visited and so are
  the cells of the stack; as long as the entrance is not visited, the top of the stack is
  such a neighbour. Once the entrance is visited, the line into it comes before the line
  into the exit, and no later line leads to a cell with a passage to the entrance. Every
  visited cell that is not on the stack has all cells behind its passages visited.
\<close>

definition searching :: "maze \<Rightarrow> idx list \<Rightarrow> maze \<Rightarrow> bool" where
  "searching m0 stack m = (same_frame m0 m \<and> same_walls m0 m \<and> same_dirs m0 m \<and>
     (\<exists>es. drawn m = drawn m0 @ map red es \<and> distinct (map snd es) \<and>
        visited_set m = snd ` set es \<and> (\<forall>e\<in>set es. open_to m0 (fst e) (snd e)) \<and>
        ((0, 0) \<in> visited_set m \<longrightarrow>
           (\<exists>es1 a es2. es = es1 @ (a, (0, 0)) # es2 \<and> exit_of m0 \<notin> snd ` set es1 \<and>
              (\<forall>e\<in>set es2. \<not> open_to m0 (0, 0) (snd e))))) \<and>
     ((stack = [(0, 0)] \<and> visited_set m = {}) \<or>
      ((\<forall>b. open_to m0 (0, 0) b \<longrightarrow> b \<in> visited_set m) \<and> set stack \<subseteq> visited_set m \<and>
       ((0, 0) \<notin> visited_set m \<longrightarrow> stack \<noteq> [] \<and> open_to m0 (0, 0) (last stack) \<and>
          (\<forall>v\<in>visited_set m. open_to m0 (0, 0) v)))) \<and>
     (\<forall>p\<in>visited_set m \<union> {(0, 0)}. p \<in> set stack \<or>
        (\<forall>b. open_to m0 p b \<longrightarrow> b \<in> visited_set m \<union> {(0, 0)})))"

section \<open>Unfolding the constructor\<close>

lemmas sum_ops = bindE_def bindC_def subscript_def cell_at_def cell_set_def animate_def
  draw_cell_def py_range_def if_unvisited_def need_to_visit_def

lemmas ctor_defs = Maze_init_def Maze_fields_def create_cells_def break_entrance_and_exit_def
  open_entrance_and_exit_def break_walls_def break_walls_r_def reset_cells_visited_def
  clear_visited_def solve_def new_cells_def new_column_def append_cell_def Cell_init_def
  carved_def before_solve_def

subsection \<open>Trees\<close>

lemma sym_reach_mono: "E \<subseteq> F \<Longrightarrow> sym_reach E \<subseteq> sym_reach F"
  unfolding sym_reach_def by (intro rtrancl_mono) auto

lemma sym_reach_ends:
  assumes "(x, y) \<in> sym_reach E" "x \<noteq> y" "E \<subseteq> V \<times> V"
  shows "x \<in> V \<and> y \<in> V"
proof -
  from assms(1,2) obtain z where "(x, z) \<in> E \<union> E\<inverse>"
    unfolding sym_reach_def by (auto elim: converse_rtranclE)
  moreover from assms(1,2) obtain z' where "(z', y) \<in> E \<union> E\<inverse>"
    unfolding sym_reach_def by (auto elim: rtranclE)
  ultimately show ?thesis using assms(3) by auto
qed

lemma sym_reach_leaf:
  assumes "(x, y) \<in> sym_reach (insert e F)" "F \<subseteq> V \<times> V" "b \<notin> V" "e = (a, b) \<or> e = (b, a)" "x \<noteq> b"
  shows "(y \<noteq> b \<longrightarrow> (x, y) \<in> sym_reach F) \<and> (y = b \<longrightarrow> (x, a) \<in> sym_reach F)"
  using assms(1) unfolding sym_reach_def
proof (induction rule: rtrancl_induct)
  case base
  then show ?case using assms(5) by simp
next
  case (step y z)
  show ?case
  proof (cases "y = b")
    case True
    with step have xa: "(x, a) \<in> (F \<union> F\<inverse>)\<^sup>*" by simp
    from step(2) True assms(2,3,4) have "z = a" by auto
    with xa assms(5) show ?thesis by auto
  next
    case False
    with step have xy: "(x, y) \<in> (F \<union> F\<inverse>)\<^sup>*" by simp
    show ?thesis
    proof (cases "(y, z) \<in> F \<union> F\<inverse>")
      case True
      then have "z \<noteq> b" using assms(2,3) by auto
      moreover have "(x, z) \<in> (F \<union> F\<inverse>)\<^sup>*" using xy True by (rule rtrancl_into_rtrancl)
      ultimately show ?thesis by simp
    next
      case F2: False
      with step(2) assms(4) False have "y = a \<and> z = b" by auto
      with xy show ?thesis by simp
    qed
  qed
qed

lemma tree_on_single: "tree_on r {r} {}"
  by (simp add: tree_on_def sym_reach_def)

lemma tree_on_add:
  assumes t: "tree_on r V E" and a: "a \<in> V" and b: "b \<notin> V" and e: "e = (a, b) \<or> e = (b, a)"
  shows "tree_on r (insert b V) (insert e E)"
proof -
  from t have fin: "finite V" and r: "r \<in> V" and sub: "E \<subseteq> V \<times> V"
    and cnt: "card E + 1 = card V" and reach: "\<forall>v\<in>V. (r, v) \<in> sym_reach E"
    and br: "\<forall>f\<in>E. f \<notin> sym_reach (E - {f})"
    by (auto simp: tree_on_def)
  have finE: "finite E" using fin sub by (meson finite_SigmaI finite_subset)
  have enot: "e \<notin> E" using sub b e by auto
  have ab: "a \<noteq> b" using a b by auto
  have c1: "card (insert e E) + 1 = card (insert b V)"
    using finE fin enot b cnt by simp
  have mono: "sym_reach E \<subseteq> sym_reach (insert e E)" by (rule sym_reach_mono) auto
  have eab: "(a, b) \<in> insert e E \<union> (insert e E)\<inverse>" using e by auto
  have c2: "\<forall>v\<in>insert b V. (r, v) \<in> sym_reach (insert e E)"
  proof
    fix v assume "v \<in> insert b V"
    then show "(r, v) \<in> sym_reach (insert e E)"
    proof
      assume "v = b"
      have "(r, a) \<in> sym_reach (insert e E)" using reach a mono by auto
      then show ?thesis using eab \<open>v = b\<close> unfolding sym_reach_def
        by (auto intro: rtrancl_into_rtrancl)
    next
      assume "v \<in> V" then show ?thesis using reach mono by auto
    qed
  qed
  have c3: "\<forall>f\<in>insert e E. f \<notin> sym_reach (insert e E - {f})"
  proof
    fix f assume f: "f \<in> insert e E"
    show "f \<notin> sym_reach (insert e E - {f})"
    proof (cases "f = e")
      case True
      then have eq: "insert e E - {f} = E" using enot by auto
      show ?thesis
      proof
        assume "f \<in> sym_reach (insert e E - {f})"
        then have "e \<in> sym_reach E" using eq True by simp
        then have "b \<in> V" using e sym_reach_ends[OF _ _ sub, of a b] sym_reach_ends[OF _ _ sub, of b a] ab
          by auto
        then show False using b by simp
      qed
    next
      case False
      then have fE: "f \<in> E" using f by simp
      have eq: "insert e E - {f} = insert e (E - {f})" using False by auto
      obtain c d where cd: "f = (c, d)" by (cases f)
      then have cV: "c \<in> V" "d \<in> V" using fE sub by auto
      then have "c \<noteq> b" "d \<noteq> b" using b by auto
      show ?thesis
      proof
        assume "f \<in> sym_reach (insert e E - {f})"
        then have "(c, d) \<in> sym_reach (insert e (E - {f}))" using eq cd by simp
        from sym_reach_leaf[OF this _ b e \<open>c \<noteq> b\<close>] sub \<open>d \<noteq> b\<close>
        have "(c, d) \<in> sym_reach (E - {f})" by auto
        then show False using br fE cd by auto
      qed
    qed
  qed
  show ?thesis unfolding tree_on_def using fin r sub a c1 c2 c3 e by auto
qed

subsection \<open>Reading and writing cells inside the grid\<close>

lemma bindE_Inr [simp]: "bindE (Inr a) f = f a"
  by (simp add: bindE_def)

lemma bindE_Inl [simp]: "bindE (Inl e) f = Inl e"
  by (simp add: bindE_def)

lemma bindC_Some_Inr [simp]: "bindC (Some (Inr a)) f = f a"
  by (simp add: bindC_def)

lemma bindC_Some_Inl [simp]: "bindC (Some (Inl e)) f = Some (Inl e)"
  by (simp add: bindC_def)

lemma bindC_None [simp]: "bindC None f = None"
  by (simp add: bindC_def)

lemma subscript_in: "0 \<le> i \<Longrightarrow> i < int n \<Longrightarrow> subscript n i = Inr (nat i)"
  by (simp add: subscript_def)

lemma grid_ok_col:
  assumes "grid_ok m" "in_grid m p"
  shows "nat (fst p) < length (cells m)" "length (cells m ! nat (fst p)) = nat (num_rows m)"
    "nat (snd p) < length (cells m ! nat (fst p))"
proof -
  show 1: "nat (fst p) < length (cells m)" using assms by (auto simp: grid_ok_def in_grid_def)
  then show 2: "length (cells m ! nat (fst p)) = nat (num_rows m)"
    using assms(1) by (auto simp: grid_ok_def list_all_length)
  show "nat (snd p) < length (cells m ! nat (fst p))" using 2 assms(2) by (auto simp: in_grid_def)
qed

lemma cell_at_in: "grid_ok m \<Longrightarrow> in_grid m (i, j) \<Longrightarrow> cell_at m i j = Inr (the_cell m (i, j))"
  using grid_ok_col[of m "(i, j)"]
  by (simp add: cell_at_def subscript_in the_cell_def in_grid_def)

lemma cell_set_in: "grid_ok m \<Longrightarrow> in_grid m (i, j) \<Longrightarrow> cell_set m i j f = Inr (upd m (i, j) f)"
  using grid_ok_col[of m "(i, j)"]
  by (simp add: cell_set_def subscript_in the_cell_def upd_def in_grid_def)

lemma upd_fields [simp]:
  "num_rows (upd m p f) = num_rows m" "num_cols (upd m p f) = num_cols m"
  "win (upd m p f) = win m" "x1 (upd m p f) = x1 m" "y1 (upd m p f) = y1 m"
  "cell_size_x (upd m p f) = cell_size_x m" "cell_size_y (upd m p f) = cell_size_y m"
  "seed (upd m p f) = seed m"
  by (simp_all add: upd_def)

lemma in_grid_upd [simp]: "in_grid (upd m p f) q = in_grid m q"
  by (simp add: in_grid_def)

lemma grid_ok_upd [simp]: "grid_ok m \<Longrightarrow> grid_ok (upd m p f)"
proof -
  assume g: "grid_ok m"
  have "length ((cells m)[nat (fst p) := (cells m ! nat (fst p))[nat (snd p) := f (the_cell m p)]] ! n)
      = nat (num_rows m)" if "n < length (cells m)" for n
    using that g by (cases "n = nat (fst p)") (auto simp: grid_ok_def list_all_length)
  then show ?thesis using g by (auto simp: grid_ok_def upd_def list_all_length)
qed

lemma the_cell_upd:
  "grid_ok m \<Longrightarrow> in_grid m p \<Longrightarrow> in_grid m q \<Longrightarrow>
   the_cell (upd m p f) q = (if q = p then f (the_cell m p) else the_cell m q)"
  using grid_ok_col[of m p] grid_ok_col[of m q]
  by (auto simp: the_cell_def upd_def nth_list_update in_grid_def prod_eq_iff)

lemma drawn_upd [simp]: "drawn (upd m p f) = drawn m"
  by (simp add: drawn_def)

lemma grid_cells_upd [simp]: "grid_cells (upd m p f) = grid_cells m"
  by (simp add: grid_cells_def)

lemma set_py_range: "set (py_range n) = {0..<n}"
  by (cases "0 \<le> n") (auto simp: py_range_def image_int_atLeastLessThan)

lemma distinct_py_range: "distinct (py_range n)"
  by (simp add: py_range_def distinct_map)

lemma set_grid_cells: "set (grid_cells m) = {p. in_grid m p}"
  by (auto simp: grid_cells_def set_py_range in_grid_def)

lemma distinct_pairs:
  "distinct xs \<Longrightarrow> distinct ys \<Longrightarrow> distinct (concat (map (\<lambda>i. map (Pair i) ys) xs))"
  by (induction xs) (auto simp: distinct_map inj_on_def)

lemma distinct_grid_cells: "distinct (grid_cells m)"
  unfolding grid_cells_def by (intro distinct_pairs distinct_py_range)

lemma length_grid_cells: "length (grid_cells m) = nat (num_cols m) * nat (num_rows m)"
  by (simp add: grid_cells_def py_range_def length_concat comp_def sum_list_triv)

lemma card_in_grid: "card {p. in_grid m p} = nat (num_cols m) * nat (num_rows m)"
  using distinct_card[OF distinct_grid_cells, of m] by (simp add: set_grid_cells length_grid_cells)

lemma finite_in_grid: "finite {p. in_grid m p}"
  using finite_set[of "grid_cells m"] by (simp only: set_grid_cells)

lemma wall_consistent_iff:
  "wall_consistent m \<longleftrightarrow> (\<forall>p. in_grid m p \<longrightarrow>
       (fst p + 1 < num_cols m \<longrightarrow>
          has_right_wall (the_cell m p) = has_left_wall (the_cell m (fst p + 1, snd p))) \<and>
       (snd p + 1 < num_rows m \<longrightarrow>
          has_bottom_wall (the_cell m p) = has_top_wall (the_cell m (fst p, snd p + 1))))"
  unfolding wall_consistent_def list_all_iff set_grid_cells by blast

lemma wall_consistentD:
  "wall_consistent m \<Longrightarrow> in_grid m p \<Longrightarrow> fst p + 1 < num_cols m \<Longrightarrow>
     has_right_wall (the_cell m p) = has_left_wall (the_cell m (fst p + 1, snd p))"
  "wall_consistent m \<Longrightarrow> in_grid m p \<Longrightarrow> snd p + 1 < num_rows m \<Longrightarrow>
     has_bottom_wall (the_cell m p) = has_top_wall (the_cell m (fst p, snd p + 1))"
  unfolding wall_consistent_iff by blast+

lemma linksD:
  assumes "links m a b m'" "in_grid m q"
  shows "has_left_wall (the_cell m' q) = (has_left_wall (the_cell m q) \<and>
           \<not> (q = a \<and> b = (fst a - 1, snd a)) \<and> \<not> (q = b \<and> a = (fst b - 1, snd b)))"
    "has_right_wall (the_cell m' q) = (has_right_wall (the_cell m q) \<and>
           \<not> (q = a \<and> b = (fst a + 1, snd a)) \<and> \<not> (q = b \<and> a = (fst b + 1, snd b)))"
    "has_top_wall (the_cell m' q) = (has_top_wall (the_cell m q) \<and>
           \<not> (q = a \<and> b = (fst a, snd a - 1)) \<and> \<not> (q = b \<and> a = (fst b, snd b - 1)))"
    "has_bottom_wall (the_cell m' q) = (has_bottom_wall (the_cell m q) \<and>
           \<not> (q = a \<and> b = (fst a, snd a + 1)) \<and> \<not> (q = b \<and> a = (fst b, snd b + 1)))"
  using assms unfolding links_def by blast+

lemma links_dims:
  "links m a b m' \<Longrightarrow> num_cols m' = num_cols m" "links m a b m' \<Longrightarrow> num_rows m' = num_rows m"
  "links m a b m' \<Longrightarrow> grid_ok m'" "links m a b m' \<Longrightarrow> in_grid m' q = in_grid m q"
  by (simp_all add: links_def in_grid_def)

lemma adjacent_cases:
  assumes "adjacent (a1, a2) (b1, b2)"
  obtains "b1 = a1 - 1" "b2 = a2" | "b1 = a1 + 1" "b2 = a2"
    | "b1 = a1" "b2 = a2 - 1" | "b1 = a1" "b2 = a2 + 1"
  using assms by (auto simp: adjacent_def)

lemma links_open_right:
  assumes l: "links m (a1, a2) (b1, b2) m'" and adj: "adjacent (a1, a2) (b1, b2)"
    and p: "in_grid m (p1, p2)" "in_grid m (p1 + 1, p2)"
  shows "open_right m' (p1, p2) =
     (open_right m (p1, p2) \<or> ((p1, p2), (p1 + 1, p2)) = edge (a1, a2) (b1, b2))"
  using adj
proof (cases rule: adjacent_cases)
  case 1
  then show ?thesis
    by (simp add: open_right_def edge_def linksD(1,2)[OF l] p, (cases "p1 + 1 = a1"; cases "p2 = a2"; simp)?)
next
  case 2
  then show ?thesis
    by (simp add: open_right_def edge_def linksD(1,2)[OF l] p, (cases "p1 = a1"; cases "p2 = a2"; simp)?)
next
  case 3
  then show ?thesis
    by (simp add: open_right_def edge_def linksD(1,2)[OF l] p, (cases "p1 = a1"; simp)?)
next
  case 4
  then show ?thesis
    by (simp add: open_right_def edge_def linksD(1,2)[OF l] p, (cases "p1 = a1"; simp)?)
qed

lemma links_open_down:
  assumes l: "links m (a1, a2) (b1, b2) m'" and adj: "adjacent (a1, a2) (b1, b2)"
    and p: "in_grid m (p1, p2)" "in_grid m (p1, p2 + 1)"
  shows "open_down m' (p1, p2) =
     (open_down m (p1, p2) \<or> ((p1, p2), (p1, p2 + 1)) = edge (a1, a2) (b1, b2))"
  using adj
proof (cases rule: adjacent_cases)
  case 1
  then show ?thesis
    by (simp add: open_down_def edge_def linksD(3,4)[OF l] p, (cases "p2 = a2"; simp)?)
next
  case 2
  then show ?thesis
    by (simp add: open_down_def edge_def linksD(3,4)[OF l] p, (cases "p2 = a2"; simp)?)
next
  case 3
  then show ?thesis
    by (simp add: open_down_def edge_def linksD(3,4)[OF l] p, (cases "p1 = a1"; cases "p2 + 1 = a2"; simp)?)
next
  case 4
  then show ?thesis
    by (simp add: open_down_def edge_def linksD(3,4)[OF l] p, (cases "p1 = a1"; cases "p2 = a2"; simp)?)
qed

lemma links_right_left:
  assumes l: "links m (a1, a2) (b1, b2) m'" and adj: "adjacent (a1, a2) (b1, b2)"
    and p: "in_grid m (p1, p2)" "in_grid m (p1 + 1, p2)"
    and c: "has_right_wall (the_cell m (p1, p2)) = has_left_wall (the_cell m (p1 + 1, p2))"
  shows "has_right_wall (the_cell m' (p1, p2)) = has_left_wall (the_cell m' (p1 + 1, p2))"
  using adj
proof (cases rule: adjacent_cases)
  case 1
  then show ?thesis
    by (simp add: linksD(1,2)[OF l] p c, (cases "p1 + 1 = a1"; cases "p2 = a2"; simp)?)
next
  case 2
  then show ?thesis
    by (simp add: linksD(1,2)[OF l] p c, (cases "p1 = a1"; cases "p2 = a2"; simp)?)
next
  case 3
  then show ?thesis by (simp add: linksD(1,2)[OF l] p c)
next
  case 4
  then show ?thesis by (simp add: linksD(1,2)[OF l] p c)
qed

lemma links_bottom_top:
  assumes l: "links m (a1, a2) (b1, b2) m'" and adj: "adjacent (a1, a2) (b1, b2)"
    and p: "in_grid m (p1, p2)" "in_grid m (p1, p2 + 1)"
    and c: "has_bottom_wall (the_cell m (p1, p2)) = has_top_wall (the_cell m (p1, p2 + 1))"
  shows "has_bottom_wall (the_cell m' (p1, p2)) = has_top_wall (the_cell m' (p1, p2 + 1))"
  using adj
proof (cases rule: adjacent_cases)
  case 1
  then show ?thesis by (simp add: linksD(3,4)[OF l] p c)
next
  case 2
  then show ?thesis by (simp add: linksD(3,4)[OF l] p c)
next
  case 3
  then show ?thesis
    by (simp add: linksD(3,4)[OF l] p c, (cases "p1 = a1"; cases "p2 + 1 = a2"; simp)?)
next
  case 4
  then show ?thesis
    by (simp add: linksD(3,4)[OF l] p c, (cases "p1 = a1"; cases "p2 = a2"; simp)?)
qed

lemma links_consistent:
  assumes l: "links m a b m'" and w: "wall_consistent m" and adj: "adjacent a b"
  shows "wall_consistent m'"
  unfolding wall_consistent_iff
proof (intro allI impI conjI)
  obtain a1 a2 b1 b2 where ab: "a = (a1, a2)" "b = (b1, b2)" by (cases a; cases b) auto
  fix p assume p: "in_grid m' p" and r: "fst p + 1 < num_cols m'"
  obtain p1 p2 where pp: "p = (p1, p2)" by (cases p)
  have pq: "in_grid m (p1, p2)" "in_grid m (p1 + 1, p2)" "fst (p1, p2) + 1 < num_cols m"
    using p r links_dims[OF l] by (auto simp: in_grid_def pp)
  show "has_right_wall (the_cell m' p) = has_left_wall (the_cell m' (fst p + 1, snd p))"
    using links_right_left[OF l[unfolded ab] adj[unfolded ab] pq(1,2)]
      wall_consistentD(1)[OF w pq(1) pq(3)] by (simp add: pp)
next
  obtain a1 a2 b1 b2 where ab: "a = (a1, a2)" "b = (b1, b2)" by (cases a; cases b) auto
  fix p assume p: "in_grid m' p" and r: "snd p + 1 < num_rows m'"
  obtain p1 p2 where pp: "p = (p1, p2)" by (cases p)
  have pq: "in_grid m (p1, p2)" "in_grid m (p1, p2 + 1)" "snd (p1, p2) + 1 < num_rows m"
    using p r links_dims[OF l] by (auto simp: in_grid_def pp)
  show "has_bottom_wall (the_cell m' p) = has_top_wall (the_cell m' (fst p, snd p + 1))"
    using links_bottom_top[OF l[unfolded ab] adj[unfolded ab] pq(1,2)]
      wall_consistentD(2)[OF w pq(1) pq(3)] by (simp add: pp)
qed

lemma border_okD:
  "border_ok m \<Longrightarrow> in_grid m p \<Longrightarrow> fst p + 1 = num_cols m \<Longrightarrow> has_right_wall (the_cell m p)"
  "border_ok m \<Longrightarrow> in_grid m p \<Longrightarrow> snd p + 1 = num_rows m \<Longrightarrow> fst p + 1 \<noteq> num_cols m \<Longrightarrow>
     has_bottom_wall (the_cell m p)"
  unfolding border_ok_def by blast+

lemma links_border:
  assumes l: "links m a b m'" and w: "border_ok m" and a: "in_grid m a" and b: "in_grid m b"
  shows "border_ok m'"
  unfolding border_ok_def
proof (intro allI impI conjI)
  fix p assume p: "in_grid m' p" and r: "fst p + 1 = num_cols m'"
  have pq: "in_grid m p" "fst p + 1 = num_cols m" using p r links_dims[OF l] by auto
  have "\<not> (p = a \<and> b = (fst a + 1, snd a))" "\<not> (p = b \<and> a = (fst b + 1, snd b))"
    using a b pq by (auto simp: in_grid_def)
  then show "has_right_wall (the_cell m' p)"
    using linksD(2)[OF l pq(1)] border_okD(1)[OF w pq] by blast
next
  fix p assume p: "in_grid m' p" and r: "snd p + 1 = num_rows m' \<and> fst p + 1 \<noteq> num_cols m'"
  have pq: "in_grid m p" "snd p + 1 = num_rows m" "fst p + 1 \<noteq> num_cols m"
    using p r links_dims[OF l] by auto
  have "\<not> (p = a \<and> b = (fst a, snd a + 1))" "\<not> (p = b \<and> a = (fst b, snd b + 1))"
    using a b pq by (auto simp: in_grid_def)
  then show "has_bottom_wall (the_cell m' p)"
    using linksD(4)[OF l pq(1)] border_okD(2)[OF w pq] by blast
qed

lemma edge_cases:
  assumes "adjacent a b" "in_grid m a" "in_grid m b" "edge a b = (p, q)"
  shows "in_grid m p \<and> in_grid m q \<and> (q = (fst p + 1, snd p) \<or> q = (fst p, snd p + 1))"
proof -
  obtain a1 a2 b1 b2 where ab: "a = (a1, a2)" "b = (b1, b2)" by (cases a; cases b) auto
  from assms(1)[unfolded ab] show ?thesis
    by (cases rule: adjacent_cases) (use assms(2-4) in \<open>auto simp: ab edge_def split: if_splits\<close>)
qed

lemma links_passages:
  assumes l: "links m a b m'" and a: "in_grid m a" and b: "in_grid m b" and adj: "adjacent a b"
  shows "passage_set m' = insert (edge a b) (passage_set m)"
proof (rule set_eqI)
  obtain a1 a2 b1 b2 where ab: "a = (a1, a2)" "b = (b1, b2)" by (cases a; cases b) auto
  note g = links_dims(4)[OF l]
  fix e :: "idx \<times> idx"
  obtain p1 p2 q where e: "e = ((p1, p2), q)" by (cases e) auto
  show "e \<in> passage_set m' \<longleftrightarrow> e \<in> insert (edge a b) (passage_set m)"
  proof (cases "in_grid m (p1, p2) \<and> in_grid m q")
    case False
    then show ?thesis using edge_cases[OF adj a b, of "(p1, p2)" q]
      by (auto simp: e passage_set_def g)
  next
    case True
    consider "q = (p1 + 1, p2)" | "q = (p1, p2 + 1)" | "q \<noteq> (p1 + 1, p2)" "q \<noteq> (p1, p2 + 1)"
      by blast
    then show ?thesis
    proof cases
      case 1
      then show ?thesis
        using True links_open_right[OF l[unfolded ab] adj[unfolded ab], of p1 p2]
        by (auto simp: e passage_set_def g ab)
    next
      case 2
      then show ?thesis
        using True links_open_down[OF l[unfolded ab] adj[unfolded ab], of p1 p2]
        by (auto simp: e passage_set_def g ab)
    next
      case 3
      then show ?thesis using True edge_cases[OF adj a b, of "(p1, p2)" q]
        by (auto simp: e passage_set_def g)
    qed
  qed
qed

lemma same_frame_refl [simp]: "grid_ok m \<Longrightarrow> same_frame m m"
  by (simp add: same_frame_def)

lemma same_frame_trans: "same_frame m m' \<Longrightarrow> same_frame m' m'' \<Longrightarrow> same_frame m m''"
  by (simp add: same_frame_def)

lemma same_frame_upd [simp]: "same_frame m m' \<Longrightarrow> same_frame m (upd m' p f)"
  by (simp add: same_frame_def)

lemma same_frame_in_grid: "same_frame m m' \<Longrightarrow> in_grid m' q = in_grid m q"
  by (simp add: same_frame_def in_grid_def)

lemma draw_cell_in:
  "grid_ok m \<Longrightarrow> in_grid m (i, j) \<Longrightarrow>
   draw_cell m i j = Inr (upd m (i, j) (\<lambda>c. c\<lparr>cx1 := x1 m + i * cell_size_x m,
      cy1 := y1 m + j * cell_size_y m, cx2 := x1 m + i * cell_size_x m + cell_size_x m,
      cy2 := y1 m + j * cell_size_y m + cell_size_y m\<rparr>))"
  by (simp add: draw_cell_def cell_set_in Let_def animate_def split: option.splits)

lemma clear_pair_in:
  "grid_ok m \<Longrightarrow> in_grid m a \<Longrightarrow> in_grid m b \<Longrightarrow>
   clear_pair m a f b h = Inr (upd (upd m a f) b h)"
  using cell_set_in[of m "fst a" "snd a" f] cell_set_in[of "upd m a f" "fst b" "snd b" h]
  by (simp add: clear_pair_def)

lemma neighbours_r_in:
  assumes "in_grid m p" "q \<in> set (neighbours_r m p)"
  shows "in_grid m q" "adjacent p q" "q \<noteq> p"
  using assms by (cases p; auto simp: neighbours_r_def in_grid_def adjacent_def split: if_splits)+

lemma neighbours_l_in:
  assumes "in_grid m p" "q \<in> set (neighbours_l m p)"
  shows "in_grid m q" "adjacent p q" "q \<noteq> p"
  using assms by (cases p; auto simp: neighbours_l_def in_grid_def adjacent_def split: if_splits)+

lemma neighbours_r_sub: "set (neighbours_r m p) \<subseteq> set (neighbours_l m p)"
  by (auto simp: neighbours_r_def neighbours_l_def split: if_splits)

text \<open>The effect of removing the wall pair, for either carver.\<close>

lemma carve_r_in:
  assumes g: "grid_ok m" and a: "in_grid m (i, j)" and b: "in_grid m (ni, nj)"
    and adj: "adjacent (i, j) (ni, nj)"
  shows "\<exists>m'. carve_r m i j ni nj = Inr m' \<and> links m (i, j) (ni, nj) m' \<and> same_frame m m'
     \<and> win m' = win m
     \<and> (\<forall>q. in_grid m q \<longrightarrow> visited (the_cell m' q) = visited (the_cell m q)
            \<and> valid_dirs (the_cell m' q) = valid_dirs (the_cell m q))"
  using adj
proof (cases rule: adjacent_cases)
  case 1
  have b': "in_grid m (ni, j)" using b 1 by simp
  show ?thesis using 1 g a b'
    by (simp add: carve_r_def clear_pair_in links_def the_cell_upd)
next
  case 2
  have b': "in_grid m (ni, j)" using b 2 by simp
  show ?thesis using 2 g a b'
    by (simp add: carve_r_def clear_pair_in links_def the_cell_upd)
next
  case 3
  have b': "in_grid m (i, nj)" using b 3 by simp
  show ?thesis using 3 g a b'
    by (simp add: carve_r_def clear_pair_in links_def the_cell_upd)
next
  case 4
  have b': "in_grid m (i, nj)" using b 4 by simp
  show ?thesis using 4 g a b'
    by (simp add: carve_r_def clear_pair_in links_def the_cell_upd)
qed

lemma same_walls_refl [simp]: "same_walls m m"
  by (simp add: same_walls_def)

lemma same_dirs_refl [simp]: "same_dirs m m"
  by (simp add: same_dirs_def)

lemma same_walls_trans:
  "same_walls m m' \<Longrightarrow> same_frame m m' \<Longrightarrow> same_walls m' m'' \<Longrightarrow> same_walls m m''"
  unfolding same_walls_def using same_frame_in_grid[of m m'] by simp

lemma same_dirs_trans:
  "same_dirs m m' \<Longrightarrow> same_frame m m' \<Longrightarrow> same_dirs m' m'' \<Longrightarrow> same_dirs m m''"
  unfolding same_dirs_def using same_frame_in_grid[of m m'] by simp

lemma same_walls_D:
  assumes "same_walls m m'" "in_grid m q"
  shows "has_left_wall (the_cell m' q) = has_left_wall (the_cell m q)"
    "has_right_wall (the_cell m' q) = has_right_wall (the_cell m q)"
    "has_top_wall (the_cell m' q) = has_top_wall (the_cell m q)"
    "has_bottom_wall (the_cell m' q) = has_bottom_wall (the_cell m q)"
  using assms unfolding same_walls_def by blast+

lemma same_walls_passages:
  assumes "same_walls m m'" "same_frame m m'"
  shows "passage_set m' = passage_set m"
proof -
  note g = same_frame_in_grid[OF assms(2)]
  have "open_right m' p = open_right m p" if "in_grid m p" "in_grid m (fst p + 1, snd p)" for p
    using same_walls_D[OF assms(1) that(1)] same_walls_D[OF assms(1) that(2)]
    by (simp add: open_right_def)
  moreover have "open_down m' p = open_down m p" if "in_grid m p" "in_grid m (fst p, snd p + 1)" for p
    using same_walls_D[OF assms(1) that(1)] same_walls_D[OF assms(1) that(2)]
    by (simp add: open_down_def)
  ultimately show ?thesis unfolding passage_set_def g by auto
qed

lemma same_walls_consistent:
  assumes "same_walls m m'" "same_frame m m'" "wall_consistent m"
  shows "wall_consistent m'"
  unfolding wall_consistent_iff
proof (intro allI impI conjI)
  fix p assume p: "in_grid m' p" and r: "fst p + 1 < num_cols m'"
  have pq: "in_grid m p" "in_grid m (fst p + 1, snd p)" "fst p + 1 < num_cols m"
    using p r assms(2) by (auto simp: in_grid_def same_frame_def)
  show "has_right_wall (the_cell m' p) = has_left_wall (the_cell m' (fst p + 1, snd p))"
    using same_walls_D(2)[OF assms(1) pq(1)] same_walls_D(1)[OF assms(1) pq(2)]
      wall_consistentD(1)[OF assms(3) pq(1) pq(3)] by simp
next
  fix p assume p: "in_grid m' p" and r: "snd p + 1 < num_rows m'"
  have pq: "in_grid m p" "in_grid m (fst p, snd p + 1)" "snd p + 1 < num_rows m"
    using p r assms(2) by (auto simp: in_grid_def same_frame_def)
  show "has_bottom_wall (the_cell m' p) = has_top_wall (the_cell m' (fst p, snd p + 1))"
    using same_walls_D(4)[OF assms(1) pq(1)] same_walls_D(3)[OF assms(1) pq(2)]
      wall_consistentD(2)[OF assms(3) pq(1) pq(3)] by simp
qed

lemma same_walls_border:
  assumes "same_walls m m'" "same_frame m m'" "border_ok m"
  shows "border_ok m'"
  unfolding border_ok_def
proof (intro allI impI conjI)
  fix p assume p: "in_grid m' p" and r: "fst p + 1 = num_cols m'"
  have pq: "in_grid m p" "fst p + 1 = num_cols m"
    using p r assms(2) by (auto simp: in_grid_def same_frame_def)
  show "has_right_wall (the_cell m' p)"
    using same_walls_D(2)[OF assms(1) pq(1)] border_okD(1)[OF assms(3) pq] by simp
next
  fix p assume p: "in_grid m' p" and r: "snd p + 1 = num_rows m' \<and> fst p + 1 \<noteq> num_cols m'"
  have pq: "in_grid m p" "snd p + 1 = num_rows m" "fst p + 1 \<noteq> num_cols m"
    using p r assms(2) by (auto simp: in_grid_def same_frame_def)
  show "has_bottom_wall (the_cell m' p)"
    using same_walls_D(4)[OF assms(1) pq(1)] border_okD(2)[OF assms(3) pq] by simp
qed

lemma Inv0_same:
  assumes "Inv0 m V" "same_walls m m'" "same_frame m m'"
  shows "Inv0 m' V"
  using assms same_walls_passages[OF assms(2,3)] same_walls_consistent[OF assms(2,3)]
    same_walls_border[OF assms(2,3)]
  by (simp add: Inv0_def same_frame_def)

lemma edge_alt: "edge a b = (a, b) \<or> edge a b = (b, a)"
  by (simp add: edge_def)

lemma Inv0_link:
  assumes "Inv0 m V" "links m a b m'" "in_grid m a" "in_grid m b" "adjacent a b"
    "a \<in> V" "b \<notin> V"
  shows "Inv0 m' (insert b V)"
proof -
  have t: "tree_on (0, 0) V (passage_set m)" using assms(1) by (simp add: Inv0_def)
  have "tree_on (0, 0) (insert b V) (insert (edge a b) (passage_set m))"
    by (rule tree_on_add[OF t assms(6,7) edge_alt])
  then show ?thesis
    using assms(1) links_consistent[OF assms(2) _ assms(5)] links_border[OF assms(2) _ assms(3,4)]
      links_passages[OF assms(2,3,4,5)] links_dims(3)[OF assms(2)]
    by (simp add: Inv0_def)
qed

lemma draw_cell_only_coords:
  assumes "grid_ok m" "in_grid m (i, j)"
  shows "\<exists>m'. draw_cell m i j = Inr m' \<and> only_coords m m'"
  using assms
  by (simp add: draw_cell_in only_coords_def same_walls_def same_dirs_def same_marks_def the_cell_upd)

lemma links_upd:
  assumes "links m a b m1" "in_grid m p"
    "\<And>c. has_left_wall (f c) = has_left_wall c" "\<And>c. has_right_wall (f c) = has_right_wall c"
    "\<And>c. has_top_wall (f c) = has_top_wall c" "\<And>c. has_bottom_wall (f c) = has_bottom_wall c"
  shows "links m a b (upd m1 p f)"
proof -
  have g: "grid_ok m1" "in_grid m1 q = in_grid m q" for q
    using assms(1) by (simp_all add: links_def in_grid_def)
  have c: "the_cell (upd m1 p f) q = (if q = p then f (the_cell m1 p) else the_cell m1 q)"
    if "in_grid m q" for q
    using g assms(2) that by (simp add: the_cell_upd)
  show ?thesis
    unfolding links_def
  proof (intro conjI allI impI)
    fix q assume q: "in_grid m q"
    show "has_left_wall (the_cell (upd m1 p f) q) = (has_left_wall (the_cell m q) \<and>
           \<not> (q = a \<and> b = (fst a - 1, snd a)) \<and> \<not> (q = b \<and> a = (fst b - 1, snd b)))"
      using linksD(1)[OF assms(1) q] assms(3) by (auto simp: c[OF q])
    show "has_right_wall (the_cell (upd m1 p f) q) = (has_right_wall (the_cell m q) \<and>
           \<not> (q = a \<and> b = (fst a + 1, snd a)) \<and> \<not> (q = b \<and> a = (fst b + 1, snd b)))"
      using linksD(2)[OF assms(1) q] assms(4) by (auto simp: c[OF q])
    show "has_top_wall (the_cell (upd m1 p f) q) = (has_top_wall (the_cell m q) \<and>
           \<not> (q = a \<and> b = (fst a, snd a - 1)) \<and> \<not> (q = b \<and> a = (fst b, snd b - 1)))"
      using linksD(3)[OF assms(1) q] assms(5) by (auto simp: c[OF q])
    show "has_bottom_wall (the_cell (upd m1 p f) q) = (has_bottom_wall (the_cell m q) \<and>
           \<not> (q = a \<and> b = (fst a, snd a + 1)) \<and> \<not> (q = b \<and> a = (fst b, snd b + 1)))"
      using linksD(4)[OF assms(1) q] assms(6) by (auto simp: c[OF q])
  qed (use assms(1) g in \<open>simp_all add: links_def\<close>)
qed

lemma step_r_in:
  assumes g: "grid_ok m" and a: "in_grid m (i, j)" and b: "in_grid m nxt"
    and adj: "adjacent (i, j) nxt"
  shows "\<exists>m'. step_r m i j nxt = Inr m' \<and> links m (i, j) nxt m' \<and> same_frame m m'
     \<and> win m' = win m \<and> same_dirs m m'
     \<and> (\<forall>q. in_grid m q \<longrightarrow> visited (the_cell m' q) = (q = nxt \<or> visited (the_cell m q)))"
proof -
  obtain ni nj where n: "nxt = (ni, nj)" by (cases nxt)
  from carve_r_in[OF g a b[unfolded n] adj[unfolded n]]
  obtain m1 where c: "carve_r m i j ni nj = Inr m1" and l: "links m (i, j) (ni, nj) m1"
    and f: "same_frame m m1" and w: "win m1 = win m"
    and v: "\<forall>q. in_grid m q \<longrightarrow> visited (the_cell m1 q) = visited (the_cell m q)
            \<and> valid_dirs (the_cell m1 q) = valid_dirs (the_cell m q)"
    by blast
  have g1: "grid_ok m1" and i1: "\<And>q. in_grid m1 q = in_grid m q"
    using f by (simp_all add: same_frame_def in_grid_def)
  let ?cf = "\<lambda>i j (c::cell). c\<lparr>cx1 := x1 m1 + i * cell_size_x m1,
      cy1 := y1 m1 + j * cell_size_y m1, cx2 := x1 m1 + i * cell_size_x m1 + cell_size_x m1,
      cy2 := y1 m1 + j * cell_size_y m1 + cell_size_y m1\<rparr>"
  let ?m' = "upd (upd (upd m1 (i, j) (?cf i j)) (ni, nj) (?cf ni nj)) (ni, nj) (\<lambda>c. c\<lparr>visited := True\<rparr>)"
  have s: "step_r m i j nxt = Inr ?m'"
    using g1 a b i1 by (simp add: step_r_def n c draw_cell_in cell_set_in)
  have l': "links m (i, j) nxt ?m'"
    unfolding n using a b[unfolded n] by (intro links_upd l) simp_all
  have f': "same_frame m ?m'" using f by simp
  have d': "same_dirs m ?m'"
    unfolding same_dirs_def
  proof (intro allI impI)
    fix q assume q: "in_grid m q"
    show "valid_dirs (the_cell ?m' q) = valid_dirs (the_cell m q)"
      using v[rule_format, OF q] g1 a b i1 q by (auto simp: the_cell_upd n)
  qed
  have v': "\<forall>q. in_grid m q \<longrightarrow> visited (the_cell ?m' q) = (q = nxt \<or> visited (the_cell m q))"
  proof (intro allI impI)
    fix q assume q: "in_grid m q"
    have "(i, j) \<noteq> (ni, nj)" using adj n by (auto simp: adjacent_def)
    then show "visited (the_cell ?m' q) = (q = nxt \<or> visited (the_cell m q))"
      using v[rule_format, OF q] g1 a b i1 q by (auto simp: the_cell_upd n)
  qed
  show ?thesis using s l' f' d' v' w by (intro exI[of _ ?m']) simp
qed

lemma need_to_visit_in:
  assumes "grid_ok m" "in_grid m (i, j)"
  shows "need_to_visit m i j = Inr (filter (\<lambda>q. \<not> visited (the_cell m q)) (neighbours_r m (i, j)))"
proof -
  have 1: "if_unvisited m (i - 1 > 0) (i - 1, j) =
      Inr (filter (\<lambda>q. \<not> visited (the_cell m q)) (if i - 1 > 0 then [(i - 1, j)] else []))"
    using assms by (simp add: if_unvisited_def cell_at_in in_grid_def)
  have 2: "if_unvisited m (i + 1 < num_cols m) (i + 1, j) =
      Inr (filter (\<lambda>q. \<not> visited (the_cell m q)) (if i + 1 < num_cols m then [(i + 1, j)] else []))"
    using assms by (simp add: if_unvisited_def cell_at_in in_grid_def)
  have 3: "if_unvisited m (j - 1 > 0) (i, j - 1) =
      Inr (filter (\<lambda>q. \<not> visited (the_cell m q)) (if j - 1 > 0 then [(i, j - 1)] else []))"
    using assms by (simp add: if_unvisited_def cell_at_in in_grid_def)
  have 4: "if_unvisited m (j + 1 < num_rows m) (i, j + 1) =
      Inr (filter (\<lambda>q. \<not> visited (the_cell m q)) (if j + 1 < num_rows m then [(i, j + 1)] else []))"
    using assms by (simp add: if_unvisited_def cell_at_in in_grid_def)
  show ?thesis
    unfolding need_to_visit_def 1 2 3 4 by (simp add: neighbours_r_def)
qed

lemma indexes_to_visit_in:
  assumes "grid_ok m" "in_grid m (i, j)"
  shows "indexes_to_visit m i j = Inr (filter (\<lambda>q. \<not> visited (the_cell m q)) (neighbours_l m (i, j)))"
proof -
  have 1: "if_unvisited m (i - 1 \<ge> 0) (i - 1, j) =
      Inr (filter (\<lambda>q. \<not> visited (the_cell m q)) (if i - 1 \<ge> 0 then [(i - 1, j)] else []))"
    using assms by (simp add: if_unvisited_def cell_at_in in_grid_def)
  have 2: "if_unvisited m (i + 1 < num_cols m) (i + 1, j) =
      Inr (filter (\<lambda>q. \<not> visited (the_cell m q)) (if i + 1 < num_cols m then [(i + 1, j)] else []))"
    using assms by (simp add: if_unvisited_def cell_at_in in_grid_def)
  have 3: "if_unvisited m (j - 1 \<ge> 0) (i, j - 1) =
      Inr (filter (\<lambda>q. \<not> visited (the_cell m q)) (if j - 1 \<ge> 0 then [(i, j - 1)] else []))"
    using assms by (simp add: if_unvisited_def cell_at_in in_grid_def)
  have 4: "if_unvisited m (j + 1 < num_rows m) (i, j + 1) =
      Inr (filter (\<lambda>q. \<not> visited (the_cell m q)) (if j + 1 < num_rows m then [(i, j + 1)] else []))"
    using assms by (simp add: if_unvisited_def cell_at_in in_grid_def)
  show ?thesis
    unfolding indexes_to_visit_def 1 2 3 4 by (simp add: neighbours_l_def)
qed

lemma choice_in: "xs \<noteq> [] \<Longrightarrow> fst (choice xs g) \<in> set xs"
  by (auto simp: choice_def randbelow_def split: list.splits prod.splits)

lemma neighbours_r_frame: "same_frame m m' \<Longrightarrow> neighbours_r m' p = neighbours_r m p"
  by (simp add: neighbours_r_def same_frame_def)

lemma neighbours_l_frame: "same_frame m m' \<Longrightarrow> neighbours_l m' p = neighbours_l m p"
  by (simp add: neighbours_l_def same_frame_def)

lemma finite_unvisited: "finite (unvisited m)"
  by (rule finite_subset[OF _ finite_in_grid[of m]]) (auto simp: unvisited_def)

lemma unvisited_mono:
  assumes "same_frame m m'" "visited_set m \<subseteq> visited_set m'"
  shows "unvisited m' \<subseteq> unvisited m"
  using assms same_frame_in_grid[OF assms(1)] by (auto simp: unvisited_def visited_set_def)

lemma card_unvisited_mono:
  assumes "same_frame m m'" "visited_set m \<subseteq> visited_set m'"
  shows "card (unvisited m') \<le> card (unvisited m)"
  by (rule card_mono[OF finite_unvisited unvisited_mono[OF assms]])

lemma card_unvisited_less:
  assumes "same_frame m m'" "visited_set m \<subseteq> visited_set m'" "p \<in> unvisited m" "p \<in> visited_set m'"
  shows "card (unvisited m') < card (unvisited m)"
proof -
  have "unvisited m' \<subset> unvisited m"
    using unvisited_mono[OF assms(1,2)] assms(3,4) by (auto simp: unvisited_def visited_set_def)
  then show ?thesis by (rule psubset_card_mono[OF finite_unvisited])
qed

lemma visited_set_step:
  assumes "same_frame m m'" "in_grid m nxt"
    "\<forall>q. in_grid m q \<longrightarrow> visited (the_cell m' q) = (q = nxt \<or> visited (the_cell m q))"
  shows "visited_set m' = insert nxt (visited_set m)"
  using assms(2) assms(3)[rule_format] same_frame_in_grid[OF assms(1)]
  by (auto simp: visited_set_def)

lemma visited_set_same:
  assumes "same_frame m m'" "same_marks m m'"
  shows "visited_set m' = visited_set m"
  using assms(2)[unfolded same_marks_def, rule_format] same_frame_in_grid[OF assms(1)]
  by (auto simp: visited_set_def)

lemma steps_r_mono:
  assumes "same_frame m m'" "passage_set m \<subseteq> passage_set m'"
  shows "steps_r m \<subseteq> steps_r m'"
  using assms(2) same_frame_in_grid[OF assms(1)] neighbours_r_frame[OF assms(1)]
  by (auto simp: steps_r_def)

lemma InvR_coords:
  assumes "InvR m" "only_coords m m'"
  shows "InvR m'" "visited_set m' = visited_set m"
proof -
  from assms(2) have f: "same_frame m m'" and w: "same_walls m m'" and k: "same_marks m m'"
    by (simp_all add: only_coords_def)
  show v: "visited_set m' = visited_set m" by (rule visited_set_same[OF f k])
  have "steps_r m \<subseteq> steps_r m'"
    by (rule steps_r_mono[OF f]) (simp add: same_walls_passages[OF w f])
  then have "(steps_r m)\<^sup>* \<subseteq> (steps_r m')\<^sup>*" by (rule rtrancl_mono)
  then have "reach_r m'" using assms(1) v by (auto simp: InvR_def reach_r_def)
  then show "InvR m'" using assms(1) Inv0_same[OF _ w f] v by (simp add: InvR_def)
qed

lemma InvR_step:
  assumes inv: "InvR m" and a: "in_grid m a" "a \<in> visited_set m"
    and n: "nxt \<in> set (neighbours_r m a)" "nxt \<notin> visited_set m"
    and l: "links m a nxt m'" and f: "same_frame m m'"
    and v: "visited_set m' = insert nxt (visited_set m)"
  shows "InvR m'"
proof -
  note nb = neighbours_r_in[OF a(1) n(1)]
  have i0: "Inv0 m' (visited_set m')"
    unfolding v using inv l a nb n(2) by (intro Inv0_link[of m _ a nxt]) (simp_all add: InvR_def)
  have p: "passage_set m' = insert (edge a nxt) (passage_set m)"
    by (rule links_passages[OF l a(1) nb(1,2)])
  have sub: "steps_r m \<subseteq> steps_r m'" by (rule steps_r_mono[OF f]) (auto simp: p)
  have new: "(a, nxt) \<in> steps_r m'"
    using a(1) n(1) same_frame_in_grid[OF f] neighbours_r_frame[OF f] by (simp add: steps_r_def p)
  have mono: "(steps_r m)\<^sup>* \<subseteq> (steps_r m')\<^sup>*" by (rule rtrancl_mono[OF sub])
  have "reach_r m'"
    unfolding reach_r_def v
  proof
    fix x assume "x \<in> insert nxt (visited_set m)"
    then show "((0, 0), x) \<in> (steps_r m')\<^sup>*"
    proof
      assume "x = nxt"
      have "((0, 0), a) \<in> (steps_r m')\<^sup>*" using inv a(2) mono by (auto simp: InvR_def reach_r_def)
      then show ?thesis using new \<open>x = nxt\<close> by (auto intro: rtrancl_into_rtrancl)
    next
      assume "x \<in> visited_set m"
      then show ?thesis using inv mono by (auto simp: InvR_def reach_r_def)
    qed
  qed
  then show ?thesis using i0 by (simp add: InvR_def)
qed

lemma closed_r_mono:
  assumes "closed_r m S" "same_frame m m'" "visited_set m \<subseteq> visited_set m'"
  shows "closed_r m' S"
  using assms(1,3) neighbours_r_frame[OF assms(2)] by (auto simp: closed_r_def)

lemma break_walls_r_loop_total:
  assumes "InvR m" "in_grid m (i, j)" "(i, j) \<in> visited_set m"
  shows "\<exists>m' g'. break_walls_r_loop m g i j = Some (Inr (m', g')) \<and> InvR m' \<and> same_frame m m'
     \<and> win m' = win m \<and> same_dirs m m' \<and> visited_set m \<subseteq> visited_set m'
     \<and> closed_r m' (insert (i, j) (visited_set m' - visited_set m))"
  using assms
proof (induction "card (unvisited m)" arbitrary: m g i j rule: less_induct)
  case less
  note inv = less.prems(1) and a = less.prems(2) and va = less.prems(3)
  have g0: "grid_ok m" using inv by (simp add: InvR_def Inv0_def)
  let ?need = "filter (\<lambda>q. \<not> visited (the_cell m q)) (neighbours_r m (i, j))"
  note ntv = need_to_visit_in[OF g0 a]
  show ?case
  proof (cases "?need = []")
    case True
    from draw_cell_only_coords[OF g0 a] obtain m' where
      d: "draw_cell m i j = Inr m'" and oc: "only_coords m m'" by blast
    have loop: "break_walls_r_loop m g i j = Some (Inr (m', g))"
      by (subst break_walls_r_loop.simps) (simp add: ntv True d)
    have f: "same_frame m m'" using oc by (simp add: only_coords_def)
    note vs = InvR_coords(2)[OF inv oc]
    have "set (neighbours_r m (i, j)) \<subseteq> visited_set m"
    proof
      fix q assume q: "q \<in> set (neighbours_r m (i, j))"
      then have "visited (the_cell m q)" using True by (auto simp: filter_empty_conv)
      then show "q \<in> visited_set m" using neighbours_r_in(1)[OF a q] by (simp add: visited_set_def)
    qed
    then have cl: "closed_r m' (insert (i, j) (visited_set m' - visited_set m))"
      using vs neighbours_r_frame[OF f] by (simp add: closed_r_def)
    show ?thesis
      using loop InvR_coords(1)[OF inv oc] f oc vs cl by (auto simp: only_coords_def)
  next
    case False
    obtain nxt g1 where ch: "choice ?need g = (nxt, g1)" by (cases "choice ?need g")
    have nin: "nxt \<in> set ?need" using choice_in[OF False, of g] ch by simp
    then have nn: "nxt \<in> set (neighbours_r m (i, j))" and nv: "\<not> visited (the_cell m nxt)" by auto
    note nb = neighbours_r_in[OF a nn]
    have nvs: "nxt \<notin> visited_set m" using nv by (simp add: visited_set_def)
    from step_r_in[OF g0 a nb(1,2)] obtain m1 where
      s: "step_r m i j nxt = Inr m1" and l: "links m (i, j) nxt m1" and f1: "same_frame m m1"
      and w1: "win m1 = win m" and d1: "same_dirs m m1"
      and v1: "\<forall>q. in_grid m q \<longrightarrow> visited (the_cell m1 q) = (q = nxt \<or> visited (the_cell m q))"
      by blast
    have vs1: "visited_set m1 = insert nxt (visited_set m)" by (rule visited_set_step[OF f1 nb(1) v1])
    have inv1: "InvR m1" by (rule InvR_step[OF inv a va nn nvs l f1 vs1])
    have c1: "card (unvisited m1) < card (unvisited m)"
      by (rule card_unvisited_less[OF f1, of nxt]) (use vs1 nv nb(1) in \<open>auto simp: unvisited_def\<close>)
    have n1: "in_grid m1 (fst nxt, snd nxt)" "(fst nxt, snd nxt) \<in> visited_set m1"
      using nb(1) same_frame_in_grid[OF f1] vs1 by simp_all
    from less.hyps[OF c1 inv1 n1, of g1] obtain m2 g2 where
      r2: "break_walls_r_loop m1 g1 (fst nxt) (snd nxt) = Some (Inr (m2, g2))" and inv2: "InvR m2"
      and f2: "same_frame m1 m2" and w2: "win m2 = win m1" and d2: "same_dirs m1 m2"
      and vs2: "visited_set m1 \<subseteq> visited_set m2"
      and cl2: "closed_r m2 (insert (fst nxt, snd nxt) (visited_set m2 - visited_set m1))"
      by blast
    have f02: "same_frame m m2" by (rule same_frame_trans[OF f1 f2])
    have c2: "card (unvisited m2) < card (unvisited m)"
      using card_unvisited_mono[OF f2 vs2] c1 by simp
    have a2: "in_grid m2 (i, j)" "(i, j) \<in> visited_set m2"
      using a same_frame_in_grid[OF f02] va vs1 vs2 by auto
    from less.hyps[OF c2 inv2 a2, of g2] obtain m3 g3 where
      r3: "break_walls_r_loop m2 g2 i j = Some (Inr (m3, g3))" and inv3: "InvR m3"
      and f3: "same_frame m2 m3" and w3: "win m3 = win m2" and d3: "same_dirs m2 m3"
      and vs3: "visited_set m2 \<subseteq> visited_set m3"
      and cl3: "closed_r m3 (insert (i, j) (visited_set m3 - visited_set m2))"
      by blast
    have loop: "break_walls_r_loop m g i j = Some (Inr (m3, g3))"
      by (subst break_walls_r_loop.simps) (simp add: ntv False ch s r2 r3)
    have f03: "same_frame m m3" by (rule same_frame_trans[OF f02 f3])
    have d03: "same_dirs m m3"
      by (rule same_dirs_trans[OF same_dirs_trans[OF d1 f1 d2] f02 d3])
    have cl23: "closed_r m3 (insert nxt (visited_set m2 - visited_set m1))"
      using closed_r_mono[OF cl2 f3 vs3] by simp
    have cl: "closed_r m3 (insert (i, j) (visited_set m3 - visited_set m))"
      unfolding closed_r_def
    proof
      fix p assume p: "p \<in> insert (i, j) (visited_set m3 - visited_set m)"
      have "p \<in> insert (i, j) (visited_set m3 - visited_set m2) \<or>
            p \<in> insert nxt (visited_set m2 - visited_set m1)"
        using p vs1 by auto
      then show "set (neighbours_r m3 p) \<subseteq> visited_set m3"
        using cl3 cl23 by (auto simp: closed_r_def)
    qed
    show ?thesis
      using loop inv3 f03 w1 w2 w3 d03 vs1 vs2 vs3 cl by auto
  qed
qed

lemma for_each_append:
  "for_each (xs @ ys) body s = bindE (for_each xs body s) (for_each ys body)"
  by (induction xs arbitrary: s) (auto simp: bindE_def split: sum.splits)

lemma list_update_last: "length xs = k \<Longrightarrow> (xs @ [c])[k := c'] = xs @ [c']"
  by auto

lemma new_row_loop:
  "for_each (map int [0..<k]) (\<lambda>j m'. bindE (append_cell m' (int (length (cells m)))) (\<lambda>m''.
       draw_cell m'' (int (length (cells m))) j)) (m\<lparr>cells := cells m @ [[]]\<rparr>)
   = Inr (m\<lparr>cells := cells m @ [map (\<lambda>j. fresh_cell m (int (length (cells m))) (int j)) [0..<k]]\<rparr>)"
proof (induction k)
  case 0
  then show ?case by simp
next
  case (Suc k)
  let ?i = "int (length (cells m))"
  let ?mk = "m\<lparr>cells := cells m @ [map (\<lambda>j. fresh_cell m ?i (int j)) [0..<k]]\<rparr>"
  have step: "bindE (append_cell ?mk ?i) (\<lambda>m''. draw_cell m'' ?i (int k))
     = Inr (m\<lparr>cells := cells m @ [map (\<lambda>j. fresh_cell m ?i (int j)) [0..<Suc k]]\<rparr>)"
    by (simp add: append_cell_def draw_cell_def cell_set_def subscript_def
        animate_def fresh_cell_def Let_def nth_append list_update_last split: option.splits)
  show ?case
    by (simp add: for_each_append Suc step)
qed

lemma new_column_eq:
  "new_column (int (length (cells m))) m =
     Inr (m\<lparr>cells := cells m @ [map (\<lambda>j. fresh_cell m (int (length (cells m))) (int j)) [0..<nat (num_rows m)]]\<rparr>)"
  unfolding new_column_def py_range_def by (rule new_row_loop)

lemma fresh_cell_cong [simp]: "fresh_cell (m\<lparr>cells := cs\<rparr>) = fresh_cell m"
  by (simp add: fresh_cell_def fun_eq_iff)

lemma new_cells_loop:
  "cells m = [] \<Longrightarrow> for_each (map int [0..<k]) new_column m =
     Inr (m\<lparr>cells := map (\<lambda>i. map (\<lambda>j. fresh_cell m (int i) (int j)) [0..<nat (num_rows m)]) [0..<k]\<rparr>)"
proof (induction k)
  case 0
  then show ?case by simp
next
  case (Suc k)
  let ?mk = "m\<lparr>cells := map (\<lambda>i. map (\<lambda>j. fresh_cell m (int i) (int j)) [0..<nat (num_rows m)]) [0..<k]\<rparr>"
  have "new_column (int k) ?mk = Inr (m\<lparr>cells := map (\<lambda>i. map (\<lambda>j. fresh_cell m (int i) (int j)) [0..<nat (num_rows m)]) [0..<Suc k]\<rparr>)"
    using new_column_eq[of ?mk] by simp
  then show ?case using Suc by (simp add: for_each_append)
qed

lemma new_cells_eq:
  "cells m = [] \<Longrightarrow> new_cells m =
     Inr (m\<lparr>cells := map (\<lambda>i. map (\<lambda>j. fresh_cell m (int i) (int j)) [0..<nat (num_rows m)])
        [0..<nat (num_cols m)]\<rparr>)"
  unfolding new_cells_def py_range_def by (rule new_cells_loop)

lemma StartD:
  assumes "Start m" "in_grid m p"
  shows "has_left_wall (the_cell m p)" "has_right_wall (the_cell m p)"
    "has_top_wall (the_cell m p) = (p \<noteq> (0, 0))"
    "has_bottom_wall (the_cell m p) = (p \<noteq> (num_cols m - 1, num_rows m - 1))"
    "\<not> visited (the_cell m p)" "valid_dirs (the_cell m p) = Map.empty"
  using assms unfolding Start_def by blast+

lemma new_cells_fields:
  assumes "new_cells (Maze_fields w R C sx sy px py) = Inr m0"
  shows "num_rows m0 = R" "num_cols m0 = C" "win m0 = w" "x1 m0 = px" "y1 m0 = py"
    "cell_size_x m0 = sx" "cell_size_y m0 = sy" "seed m0 = None"
  using assms by (auto simp: new_cells_eq Maze_fields_def)

lemma new_cells_grid:
  "\<exists>m0. new_cells (Maze_fields w R C sx sy px py) = Inr m0 \<and> grid_ok m0 \<and>
     (\<forall>p. in_grid m0 p \<longrightarrow> the_cell m0 p = fresh_cell m0 (fst p) (snd p))"
proof -
  let ?m = "Maze_fields w R C sx sy px py"
  let ?z = "?m\<lparr>cells := map (\<lambda>i. map (\<lambda>j. fresh_cell ?m (int i) (int j)) [0..<nat (num_rows ?m)])
        [0..<nat (num_cols ?m)]\<rparr>"
  have e: "new_cells ?m = Inr ?z" by (rule new_cells_eq) (simp add: Maze_fields_def)
  have g: "grid_ok ?z" by (simp add: grid_ok_def list_all_iff)
  have c: "the_cell ?z p = fresh_cell ?z (fst p) (snd p)" if "in_grid ?z p" for p
    using that by (simp add: the_cell_def in_grid_def)
  show ?thesis using e g c by blast
qed

lemma open_entrance_and_exit_in:
  assumes g: "grid_ok m" and pos: "0 < num_cols m" "0 < num_rows m"
  shows "\<exists>m'. open_entrance_and_exit m = Inr m' \<and> same_frame m m' \<and> win m' = win m \<and>
     same_dirs m m' \<and> same_marks m m' \<and>
     (\<forall>p. in_grid m p \<longrightarrow>
        has_left_wall (the_cell m' p) = has_left_wall (the_cell m p) \<and>
        has_right_wall (the_cell m' p) = has_right_wall (the_cell m p) \<and>
        has_top_wall (the_cell m' p) = (has_top_wall (the_cell m p) \<and> p \<noteq> (0, 0)) \<and>
        has_bottom_wall (the_cell m' p) =
          (has_bottom_wall (the_cell m p) \<and> p \<noteq> (num_cols m - 1, num_rows m - 1)))"
proof -
  have a: "in_grid m (0, 0)" and b: "in_grid m (num_cols m - 1, num_rows m - 1)"
    using pos by (simp_all add: in_grid_def)
  let ?cf = "\<lambda>i j (c::cell). c\<lparr>cx1 := x1 m + i * cell_size_x m,
      cy1 := y1 m + j * cell_size_y m, cx2 := x1 m + i * cell_size_x m + cell_size_x m,
      cy2 := y1 m + j * cell_size_y m + cell_size_y m\<rparr>"
  let ?e = "(num_cols m - 1, num_rows m - 1)"
  let ?m' = "upd (upd (upd (upd m (0, 0) (\<lambda>c. c\<lparr>has_top_wall := False\<rparr>)) ?e
      (\<lambda>c. c\<lparr>has_bottom_wall := False\<rparr>)) (0, 0) (?cf 0 0)) ?e (?cf (num_cols m - 1) (num_rows m - 1))"
  have e: "open_entrance_and_exit m = Inr ?m'"
    using g a b by (simp add: open_entrance_and_exit_def cell_set_in draw_cell_in)
  have c: "has_left_wall (the_cell ?m' p) = has_left_wall (the_cell m p) \<and>
        has_right_wall (the_cell ?m' p) = has_right_wall (the_cell m p) \<and>
        has_top_wall (the_cell ?m' p) = (has_top_wall (the_cell m p) \<and> p \<noteq> (0, 0)) \<and>
        has_bottom_wall (the_cell ?m' p) =
          (has_bottom_wall (the_cell m p) \<and> p \<noteq> (num_cols m - 1, num_rows m - 1)) \<and>
        visited (the_cell ?m' p) = visited (the_cell m p) \<and>
        valid_dirs (the_cell ?m' p) = valid_dirs (the_cell m p)" if "in_grid m p" for p
    using g a b that by (simp add: the_cell_upd)
  have f: "same_frame m ?m'" using g by simp
  show ?thesis
    using e f c by (intro exI[of _ ?m']) (simp add: same_dirs_def same_marks_def del: split_paired_All)
qed

lemma carve_start:
  assumes "0 < R" "0 < C"
  shows "\<exists>m0 m1. new_cells (Maze_fields w R C sx sy px py) = Inr m0 \<and>
     open_entrance_and_exit m0 = Inr m1 \<and> Start m1 \<and> same_frame m0 m1 \<and> win m1 = w \<and>
     num_rows m1 = R \<and> num_cols m1 = C"
proof -
  from new_cells_grid[of w R C sx sy px py] obtain m0 where
    n: "new_cells (Maze_fields w R C sx sy px py) = Inr m0" and g: "grid_ok m0"
    and c: "\<forall>p. in_grid m0 p \<longrightarrow> the_cell m0 p = fresh_cell m0 (fst p) (snd p)" by blast
  note fl = new_cells_fields[OF n]
  have pos: "0 < num_cols m0" "0 < num_rows m0" using assms fl by simp_all
  from open_entrance_and_exit_in[OF g pos] obtain m1 where
    o: "open_entrance_and_exit m0 = Inr m1" and f: "same_frame m0 m1" and w: "win m1 = win m0"
    and d: "same_dirs m0 m1" and k: "same_marks m0 m1"
    and wl: "\<forall>p. in_grid m0 p \<longrightarrow>
        has_left_wall (the_cell m1 p) = has_left_wall (the_cell m0 p) \<and>
        has_right_wall (the_cell m1 p) = has_right_wall (the_cell m0 p) \<and>
        has_top_wall (the_cell m1 p) = (has_top_wall (the_cell m0 p) \<and> p \<noteq> (0, 0)) \<and>
        has_bottom_wall (the_cell m1 p) =
          (has_bottom_wall (the_cell m0 p) \<and> p \<noteq> (num_cols m0 - 1, num_rows m0 - 1))"
    by blast
  have s: "Start m1"
    unfolding Start_def
  proof (intro conjI allI impI)
    fix p assume "in_grid m1 p"
    then have p: "in_grid m0 p" using same_frame_in_grid[OF f] by simp
    note c' = c[rule_format, OF p] and wl' = wl[rule_format, OF p]
    show "has_left_wall (the_cell m1 p)" "has_right_wall (the_cell m1 p)"
      "has_top_wall (the_cell m1 p) = (p \<noteq> (0, 0))"
      "has_bottom_wall (the_cell m1 p) = (p \<noteq> (num_cols m1 - 1, num_rows m1 - 1))"
      using c' wl' f by (simp_all add: fresh_cell_def Cell_init_def same_frame_def)
    show "\<not> visited (the_cell m1 p)" "valid_dirs (the_cell m1 p) = Map.empty"
      using c' d[unfolded same_dirs_def, rule_format, OF p] k[unfolded same_marks_def, rule_format, OF p]
      by (simp_all add: fresh_cell_def Cell_init_def)
  qed (use f pos in \<open>simp_all add: same_frame_def\<close>)
  show ?thesis using n o s f w fl by (auto simp: same_frame_def)
qed

lemma Start_consistent: "Start m \<Longrightarrow> wall_consistent m"
  unfolding wall_consistent_iff
proof (intro allI impI conjI)
  fix p assume s: "Start m" and p: "in_grid m p" and r: "fst p + 1 < num_cols m"
  have q: "in_grid m (fst p + 1, snd p)" using p r by (simp add: in_grid_def)
  show "has_right_wall (the_cell m p) = has_left_wall (the_cell m (fst p + 1, snd p))"
    using StartD(2)[OF s p] StartD(1)[OF s q] by simp
next
  fix p assume s: "Start m" and p: "in_grid m p" and r: "snd p + 1 < num_rows m"
  have q: "in_grid m (fst p, snd p + 1)" using p r by (simp add: in_grid_def)
  have "p \<noteq> (num_cols m - 1, num_rows m - 1)" using r by auto
  moreover have "(fst p, snd p + 1) \<noteq> (0, 0)" using p by (auto simp: in_grid_def)
  ultimately show "has_bottom_wall (the_cell m p) = has_top_wall (the_cell m (fst p, snd p + 1))"
    using StartD(4)[OF s p] StartD(3)[OF s q] by simp
qed

lemma Start_border: "Start m \<Longrightarrow> border_ok m"
  unfolding border_ok_def
proof (intro allI impI conjI)
  fix p assume s: "Start m" and p: "in_grid m p"
  show "has_right_wall (the_cell m p)" by (rule StartD(2)[OF s p])
  assume "snd p + 1 = num_rows m \<and> fst p + 1 \<noteq> num_cols m"
  then have "p \<noteq> (num_cols m - 1, num_rows m - 1)" by auto
  then show "has_bottom_wall (the_cell m p)" using StartD(4)[OF s p] by simp
qed

lemma Start_passages: "Start m \<Longrightarrow> passage_set m = {}"
proof -
  assume s: "Start m"
  have "\<not> open_right m p" if "in_grid m p" for p
    using StartD(2)[OF s that] by (simp add: open_right_def)
  moreover have "\<not> open_down m p" if "in_grid m p" "in_grid m (fst p, snd p + 1)" for p
  proof -
    have "(fst p, snd p + 1) \<noteq> (0, 0)" using that(1) by (auto simp: in_grid_def)
    then show ?thesis using StartD(3)[OF s that(2)] by (simp add: open_down_def)
  qed
  ultimately show ?thesis by (auto simp: passage_set_def)
qed

lemma Start_visited: "Start m \<Longrightarrow> visited_set m = {}"
  using StartD(5) by (auto simp: visited_set_def)

lemma mark_visited_in:
  assumes g: "grid_ok m" and a: "in_grid m a"
  shows "same_frame m (upd m a (\<lambda>c. c\<lparr>visited := True\<rparr>))"
    "same_walls m (upd m a (\<lambda>c. c\<lparr>visited := True\<rparr>))"
    "same_dirs m (upd m a (\<lambda>c. c\<lparr>visited := True\<rparr>))"
    "visited_set (upd m a (\<lambda>c. c\<lparr>visited := True\<rparr>)) = insert a (visited_set m)"
    "win (upd m a (\<lambda>c. c\<lparr>visited := True\<rparr>)) = win m"
proof -
  let ?m = "upd m a (\<lambda>c. c\<lparr>visited := True\<rparr>)"
  have c: "the_cell ?m q = (if q = a then (the_cell m a)\<lparr>visited := True\<rparr> else the_cell m q)"
    if "in_grid m q" for q using g a that by (simp add: the_cell_upd)
  show "same_frame m ?m" using g by simp
  show "same_walls m ?m" unfolding same_walls_def using c by auto
  show "same_dirs m ?m" unfolding same_dirs_def using c by auto
  show "visited_set ?m = insert a (visited_set m)"
    using c a by (auto simp: visited_set_def)
  show "win ?m = win m" by simp
qed

lemma grid_covered:
  assumes z: "(0, 0) \<in> V"
    and cl: "\<And>p. p \<in> V \<Longrightarrow> in_grid m p \<Longrightarrow>
       (fst p + 1 < num_cols m \<longrightarrow> (fst p + 1, snd p) \<in> V) \<and>
       (snd p + 1 < num_rows m \<longrightarrow> (fst p, snd p + 1) \<in> V)"
    and q: "in_grid m q"
  shows "q \<in> V"
proof -
  have "\<forall>i j. in_grid m (i, j) \<and> nat i + nat j = n \<longrightarrow> (i, j) \<in> V" for n
  proof (induction n)
    case 0
    then show ?case using z by (auto simp: in_grid_def)
  next
    case (Suc n)
    show ?case
    proof (intro allI impI)
      fix i j assume h: "in_grid m (i, j) \<and> nat i + nat j = Suc n"
      show "(i, j) \<in> V"
      proof (cases "0 < i")
        case True
        have p: "in_grid m (i - 1, j)" "nat (i - 1) + nat j = n"
          using h True by (auto simp: in_grid_def)
        then have "(i - 1, j) \<in> V" using Suc by blast
        from cl[OF this p(1)] h show ?thesis by (auto simp: in_grid_def)
      next
        case False
        then have j: "0 < j" "i = 0" using h by (auto simp: in_grid_def)
        have p: "in_grid m (i, j - 1)" "nat i + nat (j - 1) = n"
          using h j by (auto simp: in_grid_def)
        then have "(i, j - 1) \<in> V" using Suc by blast
        from cl[OF this p(1)] h show ?thesis by (auto simp: in_grid_def)
      qed
    qed
  qed
  then show ?thesis using q by (cases q) blast
qed

lemma break_walls_r_total:
  assumes s: "Start m"
  shows "\<exists>m' g'. break_walls_r m g 0 0 = Some (Inr (m', g')) \<and> InvR m' \<and> same_frame m m'
     \<and> win m' = win m \<and> same_dirs m m' \<and> visited_set m' = {p. in_grid m p}"
proof -
  have g: "grid_ok m" and a: "in_grid m (0, 0)" using s by (simp_all add: Start_def in_grid_def)
  let ?m1 = "upd m (0, 0) (\<lambda>c. c\<lparr>visited := True\<rparr>)"
  note mk = mark_visited_in[OF g a]
  have v1: "visited_set ?m1 = {(0, 0)}" using mk(4) Start_visited[OF s] by simp
  have i0: "Inv0 m {(0, 0)}"
    using g Start_consistent[OF s] Start_border[OF s] Start_passages[OF s] tree_on_single
    by (simp add: Inv0_def)
  have "Inv0 ?m1 {(0, 0)}" by (rule Inv0_same[OF i0 mk(2) mk(1)])
  then have inv1: "InvR ?m1" by (simp add: InvR_def v1 reach_r_def)
  have a1: "in_grid ?m1 (0, 0)" "(0, 0) \<in> visited_set ?m1" using a v1 by simp_all
  from break_walls_r_loop_total[OF inv1 a1, of g] obtain m' g' where
    r: "break_walls_r_loop ?m1 g 0 0 = Some (Inr (m', g'))" and inv: "InvR m'"
    and f: "same_frame ?m1 m'" and w: "win m' = win ?m1" and d: "same_dirs ?m1 m'"
    and vs: "visited_set ?m1 \<subseteq> visited_set m'"
    and cl: "closed_r m' (insert (0, 0) (visited_set m' - visited_set ?m1))"
    by blast
  have e: "break_walls_r m g 0 0 = Some (Inr (m', g'))"
    using g a r by (simp add: break_walls_r_def cell_set_in)
  have f0: "same_frame m m'" by (rule same_frame_trans[OF mk(1) f])
  have d0: "same_dirs m m'" by (rule same_dirs_trans[OF mk(3) mk(1) d])
  have S: "insert (0, 0) (visited_set m' - visited_set ?m1) = visited_set m'"
    using vs v1 by auto
  have "q \<in> visited_set m'" if "in_grid m' q" for q
  proof (rule grid_covered[OF _ _ that])
    show "(0, 0) \<in> visited_set m'" using vs v1 by auto
    fix p assume p: "p \<in> visited_set m'" "in_grid m' p"
    have "set (neighbours_r m' p) \<subseteq> visited_set m'"
      using cl p(1) unfolding S closed_r_def by blast
    then show "(fst p + 1 < num_cols m' \<longrightarrow> (fst p + 1, snd p) \<in> visited_set m') \<and>
       (snd p + 1 < num_rows m' \<longrightarrow> (fst p, snd p + 1) \<in> visited_set m')"
      by (auto simp: neighbours_r_def)
  qed
  then have "visited_set m' = {p. in_grid m p}"
    using same_frame_in_grid[OF f0] by (auto simp: visited_set_def)
  then show ?thesis using e inv f0 w d0 by auto
qed

lemma set_dirs_in:
  "grid_ok m \<Longrightarrow> in_grid m a \<Longrightarrow> in_grid m b \<Longrightarrow>
   set_dirs m a h b t = Inr (upd (upd m a (\<lambda>c. c\<lparr>valid_dirs := (valid_dirs c)(h \<mapsto> True)\<rparr>))
      b (\<lambda>c. c\<lparr>valid_dirs := (valid_dirs c)(t \<mapsto> True)\<rparr>))"
  by (simp add: set_dirs_def clear_pair_in)

lemma carve_l_in:
  assumes g: "grid_ok m" and a: "in_grid m (i, j)" and b: "in_grid m (ni, nj)"
    and adj: "adjacent (i, j) (ni, nj)"
  shows "\<exists>m'. carve_l m i j ni nj = Inr m' \<and> links m (i, j) (ni, nj) m' \<and> same_frame m m'
     \<and> win m' = win m \<and> same_marks m m' \<and> marks_pair m (i, j) (ni, nj) m'"
  using adj
proof (cases rule: adjacent_cases)
  case 1
  show ?thesis using 1 g a b
    by (simp add: carve_l_def clear_pair_in set_dirs_in links_def the_cell_upd same_marks_def
        marks_pair_def dir_key_def del: split_paired_All)
next
  case 2
  show ?thesis using 2 g a b
    by (simp add: carve_l_def clear_pair_in set_dirs_in links_def the_cell_upd same_marks_def
        marks_pair_def dir_key_def del: split_paired_All)
next
  case 3
  show ?thesis using 3 g a b
    by (simp add: carve_l_def clear_pair_in set_dirs_in links_def the_cell_upd same_marks_def
        marks_pair_def dir_key_def del: split_paired_All)
next
  case 4
  show ?thesis using 4 g a b
    by (simp add: carve_l_def clear_pair_in set_dirs_in links_def the_cell_upd same_marks_def
        marks_pair_def dir_key_def del: split_paired_All)
qed

lemma marks_pair_upd:
  assumes "marks_pair m a b m1" "same_frame m m1" "in_grid m p" "\<And>c. valid_dirs (f c) = valid_dirs c"
  shows "marks_pair m a b (upd m1 p f)"
  unfolding marks_pair_def
proof (intro allI impI)
  fix q assume q: "in_grid m q"
  have g: "grid_ok m1" "in_grid m1 p" "in_grid m1 q"
    using assms(2,3) q same_frame_in_grid[OF assms(2)] by (simp_all add: same_frame_def)
  have "valid_dirs (the_cell (upd m1 p f) q) = valid_dirs (the_cell m1 q)"
    using g assms(4) by (simp add: the_cell_upd)
  then show "valid_dirs (the_cell (upd m1 p f) q) =
     (if q = a then (valid_dirs (the_cell m q))(dir_key a b \<mapsto> True)
      else if q = b then (valid_dirs (the_cell m q))(dir_key b a \<mapsto> True)
      else valid_dirs (the_cell m q))"
    using assms(1)[unfolded marks_pair_def, rule_format, OF q] by simp
qed

lemma visit_l_in:
  assumes g: "grid_ok m" and a: "in_grid m (i, j)" and b: "in_grid m nxt"
    and adj: "adjacent (i, j) nxt"
  shows "\<exists>m'. visit_l i j nxt (stack, m) = Inr (stack @ [nxt], m') \<and> links m (i, j) nxt m'
     \<and> same_frame m m' \<and> win m' = win m \<and> marks_pair m (i, j) nxt m'
     \<and> (\<forall>q. in_grid m q \<longrightarrow> visited (the_cell m' q) = (q = nxt \<or> visited (the_cell m q)))"
proof -
  obtain ni nj where n: "nxt = (ni, nj)" by (cases nxt)
  from carve_l_in[OF g a b[unfolded n] adj[unfolded n]]
  obtain m1 where c: "carve_l m i j ni nj = Inr m1" and l: "links m (i, j) (ni, nj) m1"
    and f: "same_frame m m1" and w: "win m1 = win m" and k: "same_marks m m1"
    and d: "marks_pair m (i, j) (ni, nj) m1"
    by blast
  have g1: "grid_ok m1" and i1: "\<And>q. in_grid m1 q = in_grid m q"
    using f by (simp_all add: same_frame_def in_grid_def)
  let ?cf = "\<lambda>i j (c::cell). c\<lparr>cx1 := x1 m1 + i * cell_size_x m1,
      cy1 := y1 m1 + j * cell_size_y m1, cx2 := x1 m1 + i * cell_size_x m1 + cell_size_x m1,
      cy2 := y1 m1 + j * cell_size_y m1 + cell_size_y m1\<rparr>"
  let ?m' = "upd (upd (upd m1 (ni, nj) (\<lambda>c. c\<lparr>visited := True\<rparr>)) (i, j) (?cf i j)) (ni, nj) (?cf ni nj)"
  have s: "visit_l i j nxt (stack, m) = Inr (stack @ [nxt], ?m')"
    using g1 a b i1 by (simp add: visit_l_def n c draw_cell_in cell_set_in)
  have l': "links m (i, j) nxt ?m'"
    unfolding n using a b[unfolded n] by (intro links_upd l) simp_all
  have f': "same_frame m ?m'" using f by simp
  have d': "marks_pair m (i, j) nxt ?m'"
    unfolding n using a b[unfolded n] f by (intro marks_pair_upd d) simp_all
  have v': "\<forall>q. in_grid m q \<longrightarrow> visited (the_cell ?m' q) = (q = nxt \<or> visited (the_cell m q))"
  proof (intro allI impI)
    fix q assume q: "in_grid m q"
    have "(i, j) \<noteq> (ni, nj)" using adj n by (auto simp: adjacent_def)
    then show "visited (the_cell ?m' q) = (q = nxt \<or> visited (the_cell m q))"
      using k[unfolded same_marks_def, rule_format, OF q] g1 a b i1 q by (auto simp: the_cell_upd n)
  qed
  show ?thesis using s l' f' d' v' w by (intro exI[of _ ?m']) simp
qed

lemma edge_eq_cases:
  assumes "edge p q = edge a b" "p \<noteq> q"
  shows "(p = a \<and> q = b) \<or> (p = b \<and> q = a)"
  using assms by (auto simp: edge_def split: if_splits)

lemma adjacent_sym: "adjacent a b \<Longrightarrow> adjacent b a"
  by (cases a; cases b) (auto simp: adjacent_def)

lemma adjacent_neq: "adjacent a b \<Longrightarrow> a \<noteq> b"
  by (cases a; cases b) (auto simp: adjacent_def)

lemma dirs_ok_step:
  assumes ok: "dirs_ok m" and l: "links m a b m'" and mp: "marks_pair m a b m'"
    and a: "in_grid m a" and b: "in_grid m b" and adj: "adjacent a b"
  shows "dirs_ok m'"
  unfolding dirs_ok_def
proof (intro allI impI)
  fix p q assume h: "in_grid m' p \<and> in_grid m' q \<and> adjacent p q \<and> edge p q \<in> passage_set m'"
  note g = links_dims(4)[OF l]
  have p: "in_grid m p" and q: "in_grid m q" and pq: "adjacent p q" using h g by simp_all
  have e: "edge p q = edge a b \<or> edge p q \<in> passage_set m"
    using h links_passages[OF l a b adj] by auto
  note vd = mp[unfolded marks_pair_def, rule_format, OF p]
  show "valid_dirs (the_cell m' p) (dir_key p q) = Some True"
  proof (cases "edge p q \<in> passage_set m")
    case True
    then have old: "valid_dirs (the_cell m p) (dir_key p q) = Some True"
      using ok p q pq unfolding dirs_ok_def by blast
    show ?thesis unfolding vd using old by auto
  next
    case False
    then have "(p = a \<and> q = b) \<or> (p = b \<and> q = a)"
      using e edge_eq_cases[OF _ adjacent_neq[OF pq]] by blast
    then show ?thesis unfolding vd using adjacent_neq[OF adj] by auto
  qed
qed

lemma dirs_ok_same:
  assumes "dirs_ok m" "same_walls m m'" "same_frame m m'" "same_dirs m m'"
  shows "dirs_ok m'"
  unfolding dirs_ok_def
proof (intro allI impI)
  fix p q assume h: "in_grid m' p \<and> in_grid m' q \<and> adjacent p q \<and> edge p q \<in> passage_set m'"
  then have h': "in_grid m p \<and> in_grid m q \<and> adjacent p q \<and> edge p q \<in> passage_set m"
    using same_frame_in_grid[OF assms(3)] same_walls_passages[OF assms(2,3)] by simp
  then have "in_grid m p" by simp
  from assms(4)[unfolded same_dirs_def, rule_format, OF this]
    assms(1)[unfolded dirs_ok_def, rule_format, OF h']
  show "valid_dirs (the_cell m' p) (dir_key p q) = Some True" by simp
qed

lemma randbelow_less: "0 < n \<Longrightarrow> fst (randbelow n g) < n"
  by (simp add: randbelow_def split: list.splits)

lemma mset_shuffle_from:
  "i < length xs \<Longrightarrow> mset (fst (shuffle_from i xs g)) = mset xs"
proof (induction i arbitrary: xs g)
  case 0
  then show ?case by simp
next
  case (Suc i)
  obtain j g' where r: "randbelow (Suc (Suc i)) g = (j, g')" by (cases "randbelow (Suc (Suc i)) g")
  have j: "j < length xs" using randbelow_less[of "Suc (Suc i)" g] r Suc.prems by simp
  let ?xs = "xs[Suc i := xs ! j, j := xs ! Suc i]"
  have "mset ?xs = mset xs" using mset_swap[OF j Suc.prems] by simp
  moreover have "mset (fst (shuffle_from i ?xs g')) = mset ?xs"
    using Suc.prems by (intro Suc.IH) simp
  ultimately show ?case by (simp add: r)
qed

lemma mset_shuffle: "mset (fst (shuffle xs g)) = mset xs"
  by (cases "xs = []") (simp_all add: shuffle_def mset_shuffle_from)

lemma shuffle_set: "set (fst (shuffle xs g)) = set xs"
  using mset_shuffle[of xs g] by (rule mset_eq_setD)

lemma shuffle_distinct: "distinct (fst (shuffle xs g)) = distinct xs"
  using mset_shuffle[of xs g] by (rule mset_eq_imp_distinct_iff)

lemma distinct_neighbours_l: "distinct (neighbours_l m p)"
  by (cases p) (auto simp: neighbours_l_def)

text \<open>The \<^verbatim>\<open>for\<close> loop of the iterative carver over the shuffled neighbours.\<close>

lemma visit_all:
  assumes "Inv0 m D" "dirs_ok m" "in_grid m (i, j)" "(i, j) \<in> D"
    "set bs \<subseteq> set (neighbours_l m (i, j))" "distinct bs" "set bs \<inter> D = {}"
  shows "\<exists>m'. for_each bs (visit_l i j) (stack, m) = Inr (stack @ bs, m') \<and> Inv0 m' (D \<union> set bs)
     \<and> dirs_ok m' \<and> same_frame m m' \<and> win m' = win m
     \<and> visited_set m' = visited_set m \<union> set bs"
  using assms
proof (induction bs arbitrary: m D stack)
  case Nil
  then show ?case by (simp add: Inv0_def)
next
  case (Cons b bs)
  note inv = Cons.prems(1) and ok = Cons.prems(2) and a = Cons.prems(3) and aD = Cons.prems(4)
  have g: "grid_ok m" using inv by (simp add: Inv0_def)
  have bn: "b \<in> set (neighbours_l m (i, j))" using Cons.prems(5) by simp
  note nb = neighbours_l_in[OF a bn]
  have bD: "b \<notin> D" using Cons.prems(7) by simp
  from visit_l_in[OF g a nb(1,2), of stack] obtain m1 where
    s: "visit_l i j b (stack, m) = Inr (stack @ [b], m1)" and l: "links m (i, j) b m1"
    and f: "same_frame m m1" and w: "win m1 = win m" and mp: "marks_pair m (i, j) b m1"
    and v: "\<forall>q. in_grid m q \<longrightarrow> visited (the_cell m1 q) = (q = b \<or> visited (the_cell m q))"
    by blast
  have inv1: "Inv0 m1 (insert b D)" by (rule Inv0_link[OF inv l a nb(1,2) aD bD])
  have ok1: "dirs_ok m1" by (rule dirs_ok_step[OF ok l mp a nb(1,2)])
  have vs1: "visited_set m1 = insert b (visited_set m)" by (rule visited_set_step[OF f nb(1) v])
  have a1: "in_grid m1 (i, j)" using a same_frame_in_grid[OF f] by simp
  have sub1: "set bs \<subseteq> set (neighbours_l m1 (i, j))"
    using Cons.prems(5) neighbours_l_frame[OF f] by simp
  have dj: "set bs \<inter> insert b D = {}" using Cons.prems(6,7) by auto
  from Cons.IH[OF inv1 ok1 a1 _ sub1 _ dj, of "stack @ [b]"] aD Cons.prems(6)
  obtain m' where r: "for_each bs (visit_l i j) (stack @ [b], m1) = Inr ((stack @ [b]) @ bs, m')"
    and inv': "Inv0 m' (insert b D \<union> set bs)" and ok': "dirs_ok m'" and f': "same_frame m1 m'"
    and w': "win m' = win m1" and vs': "visited_set m' = visited_set m1 \<union> set bs"
    by auto
  have "for_each (b # bs) (visit_l i j) (stack, m) = Inr (stack @ b # bs, m')"
    using s r by simp
  moreover have "Inv0 m' (D \<union> set (b # bs))" using inv' by simp
  moreover have "visited_set m' = visited_set m \<union> set (b # bs)" using vs' vs1 by auto
  ultimately show ?case using ok' same_frame_trans[OF f f'] w w' by auto
qed

lemma pop_l_step:
  assumes inv: "InvL stack m" and ne: "stack \<noteq> []"
  shows "\<exists>stack' m' g'. pop_l stack m g = Inr (stack', m', g') \<and> InvL stack' m' \<and>
     same_frame m m' \<and> win m' = win m \<and> visited_set m \<subseteq> visited_set m' \<and>
     2 * card (unvisited m') + length stack' < 2 * card (unvisited m) + length stack"
proof -
  obtain i j where a: "last stack = (i, j)" by (cases "last stack")
  let ?rest = "butlast stack"
  have st: "set stack = insert (i, j) (set ?rest)"
    using ne a by (metis append_butlast_last_id list.simps(15) rotate1.simps(2) set_rotate1)
  have i0: "Inv0 m (visited_set m \<union> set stack)" and ok: "dirs_ok m"
    and rs: "set ?rest \<subseteq> visited_set m" and sg: "\<forall>p\<in>set stack. in_grid m p"
    and cl: "\<forall>p\<in>visited_set m. p \<in> set stack \<or> set (neighbours_l m p) \<subseteq> visited_set m \<union> set stack"
    using inv by (simp_all add: InvL_def)
  have g: "grid_ok m" using i0 by (simp add: Inv0_def)
  have ag: "in_grid m (i, j)" using sg st by simp
  let ?m1 = "upd m (i, j) (\<lambda>c. c\<lparr>visited := True\<rparr>)"
  note mk = mark_visited_in[OF g ag]
  let ?D = "visited_set m \<union> set stack"
  have D1: "?D = visited_set ?m1" using mk(4) st rs by auto
  have i1: "Inv0 ?m1 ?D" by (rule Inv0_same[OF i0 mk(2) mk(1)])
  have ok1: "dirs_ok ?m1" by (rule dirs_ok_same[OF ok mk(2) mk(1) mk(3)])
  have g1: "grid_ok ?m1" and ag1: "in_grid ?m1 (i, j)" using g ag by simp_all
  let ?idx = "filter (\<lambda>q. \<not> visited (the_cell ?m1 q)) (neighbours_l ?m1 (i, j))"
  obtain bs g' where sh: "shuffle ?idx g = (bs, g')" by (cases "shuffle ?idx g")
  have bset: "set bs = set ?idx" and bdist: "distinct bs"
    using shuffle_set[of ?idx g] shuffle_distinct[of ?idx g] sh distinct_neighbours_l by simp_all
  have bsub: "set bs \<subseteq> set (neighbours_l ?m1 (i, j))" using bset by auto
  have bun: "set bs \<inter> ?D = {}"
  proof -
    have "q \<notin> visited_set ?m1" if "q \<in> set bs" for q
      using that bset by (auto simp: visited_set_def)
    then show ?thesis unfolding D1 by auto
  qed
  have aD: "(i, j) \<in> ?D" using st by simp
  from visit_all[OF i1 ok1 ag1 aD bsub bdist bun, of ?rest] obtain m2 where
    fe: "for_each bs (visit_l i j) (?rest, ?m1) = Inr (?rest @ bs, m2)"
    and i2: "Inv0 m2 (?D \<union> set bs)" and ok2: "dirs_ok m2" and f2: "same_frame ?m1 m2"
    and w2: "win m2 = win ?m1" and v2: "visited_set m2 = visited_set ?m1 \<union> set bs"
    by blast
  have pop: "pop_l stack m g = Inr (?rest @ bs, m2, g')"
    using g ag g1 ag1 by (simp add: pop_l_def a cell_set_in indexes_to_visit_in sh fe)
  have f02: "same_frame m m2" by (rule same_frame_trans[OF mk(1) f2])
  note ig = same_frame_in_grid[OF f02]
  have V2: "visited_set m2 = ?D \<union> set bs" using v2 D1 by simp
  have bgrid: "\<forall>q\<in>set bs. in_grid m q"
    using bsub neighbours_l_in(1)[OF ag1] by auto
  have nl: "neighbours_l m2 p = neighbours_l m p" for p by (rule neighbours_l_frame[OF f02])
  have invL: "InvL (?rest @ bs) m2"
    unfolding InvL_def
  proof (intro conjI ballI)
    have "visited_set m2 \<union> set (?rest @ bs) = ?D \<union> set bs" using V2 st by auto
    then show "Inv0 m2 (visited_set m2 \<union> set (?rest @ bs))" using i2 by simp
    show "dirs_ok m2" by (rule ok2)
    show "in_grid m2 p" if "p \<in> set (?rest @ bs)" for p
      using that sg st bgrid ig by auto
    show "set (butlast (?rest @ bs)) \<subseteq> visited_set m2"
    proof
      fix x assume "x \<in> set (butlast (?rest @ bs))"
      then have "x \<in> set (?rest @ bs)" by (rule in_set_butlastD)
      then show "x \<in> visited_set m2" using V2 st by auto
    qed
    fix p assume p: "p \<in> visited_set m2"
    show "p \<in> set (?rest @ bs) \<or> set (neighbours_l m2 p) \<subseteq> visited_set m2 \<union> set (?rest @ bs)"
    proof (cases "p = (i, j)")
      case True
      have "set (neighbours_l ?m1 (i, j)) \<subseteq> visited_set ?m1 \<union> set bs"
      proof
        fix q assume q: "q \<in> set (neighbours_l ?m1 (i, j))"
        have "in_grid ?m1 q" by (rule neighbours_l_in(1)[OF ag1 q])
        then show "q \<in> visited_set ?m1 \<union> set bs" using q bset by (auto simp: visited_set_def)
      qed
      then show ?thesis using True v2 nl neighbours_l_frame[OF mk(1)] by auto
    next
      case False
      show ?thesis
      proof (cases "p \<in> set bs \<or> p \<in> set stack")
        case True
        then show ?thesis using False st by auto
      next
        case F2: False
        then have "p \<in> visited_set m" using p V2 by auto
        then have "set (neighbours_l m p) \<subseteq> visited_set m \<union> set stack" using cl F2 by auto
        then show ?thesis using V2 nl by auto
      qed
    qed
  qed
  have vsub: "visited_set m \<subseteq> visited_set m2" using V2 by auto
  have meas: "2 * card (unvisited m2) + length (?rest @ bs) < 2 * card (unvisited m) + length stack"
  proof -
    have bu: "set bs \<subseteq> unvisited m"
      using bun bgrid by (auto simp: unvisited_def visited_set_def)
    have "unvisited m2 \<subseteq> unvisited m - set bs"
      using V2 ig by (auto simp: unvisited_def visited_set_def)
    then have "card (unvisited m2) \<le> card (unvisited m - set bs)"
      by (intro card_mono) (simp_all add: finite_unvisited)
    also have "\<dots> = card (unvisited m) - card (set bs)"
      by (rule card_Diff_subset[OF _ bu]) simp
    finally have c: "card (unvisited m2) \<le> card (unvisited m) - length bs"
      using distinct_card[OF bdist] by simp
    have "length bs \<le> card (unvisited m)"
      using card_mono[OF finite_unvisited bu] distinct_card[OF bdist] by simp
    moreover have "length stack = Suc (length ?rest)" using ne by simp
    ultimately show ?thesis using c by simp
  qed
  show ?thesis using pop invL f02 w2 mk(5) vsub meas by auto
qed

lemma break_walls_l_loop_total:
  assumes "InvL stack m"
  shows "\<exists>m' g'. break_walls_l_loop stack m g = Some (Inr (m', g')) \<and> InvL [] m' \<and>
     same_frame m m' \<and> win m' = win m \<and> visited_set m \<subseteq> visited_set m'"
  using assms
proof (induction "2 * card (unvisited m) + length stack" arbitrary: stack m g rule: less_induct)
  case less
  have g0: "grid_ok m" using less.prems by (simp add: InvL_def Inv0_def)
  show ?case
  proof (cases "stack = []")
    case True
    then show ?thesis using less.prems g0
      by (subst break_walls_l_loop.simps) simp
  next
    case False
    from pop_l_step[OF less.prems False, of g] obtain stack' m1 g1 where
      p: "pop_l stack m g = Inr (stack', m1, g1)" and inv1: "InvL stack' m1"
      and f1: "same_frame m m1" and w1: "win m1 = win m" and v1: "visited_set m \<subseteq> visited_set m1"
      and ms: "2 * card (unvisited m1) + length stack' < 2 * card (unvisited m) + length stack"
      by blast
    from less.hyps[OF ms inv1, of g1] obtain m' g' where
      r: "break_walls_l_loop stack' m1 g1 = Some (Inr (m', g'))" and inv': "InvL [] m'"
      and f': "same_frame m1 m'" and w': "win m' = win m1" and v': "visited_set m1 \<subseteq> visited_set m'"
      by blast
    have "break_walls_l_loop stack m g = Some (Inr (m', g'))"
      by (subst break_walls_l_loop.simps) (simp add: False p r)
    then show ?thesis using inv' same_frame_trans[OF f1 f'] w1 w' v1 v' by auto
  qed
qed

lemma break_walls_l_total:
  assumes s: "Start m"
  shows "\<exists>m' g'. break_walls_l m g 0 0 = Some (Inr (m', g')) \<and> Inv0 m' (visited_set m')
     \<and> dirs_ok m' \<and> same_frame m m' \<and> win m' = win m \<and> visited_set m' = {p. in_grid m p}"
proof -
  have g: "grid_ok m" and a: "in_grid m (0, 0)" using s by (simp_all add: Start_def in_grid_def)
  have i0: "Inv0 m {(0, 0)}"
    using g Start_consistent[OF s] Start_border[OF s] Start_passages[OF s] tree_on_single
    by (simp add: Inv0_def)
  have "InvL [(0, 0)] m"
    using i0 a Start_visited[OF s] Start_passages[OF s] by (simp add: InvL_def dirs_ok_def)
  from break_walls_l_loop_total[OF this, of g] obtain m' g' where
    r: "break_walls_l_loop [(0, 0)] m g = Some (Inr (m', g'))" and inv: "InvL [] m'"
    and f: "same_frame m m'" and w: "win m' = win m" by blast
  have i': "Inv0 m' (visited_set m')" and ok: "dirs_ok m'"
    and cl: "\<forall>p\<in>visited_set m'. set (neighbours_l m' p) \<subseteq> visited_set m'"
    using inv by (simp_all add: InvL_def)
  have z: "(0, 0) \<in> visited_set m'" using i' by (simp add: Inv0_def tree_on_def)
  have "q \<in> visited_set m'" if "in_grid m' q" for q
  proof (rule grid_covered[OF z _ that])
    fix p assume p: "p \<in> visited_set m'" "in_grid m' p"
    have "set (neighbours_l m' p) \<subseteq> visited_set m'" using cl p(1) by blast
    then show "(fst p + 1 < num_cols m' \<longrightarrow> (fst p + 1, snd p) \<in> visited_set m') \<and>
       (snd p + 1 < num_rows m' \<longrightarrow> (fst p, snd p + 1) \<in> visited_set m')"
      by (auto simp: neighbours_l_def)
  qed
  then have "visited_set m' = {p. in_grid m p}"
    using same_frame_in_grid[OF f] by (auto simp: visited_set_def)
  then show ?thesis using r i' ok f w by (auto simp: break_walls_l_def)
qed

lemma Start_no_dirs: "Start m \<Longrightarrow> no_dirs m"
  using StartD(6) by (simp add: no_dirs_def)

lemma no_dirs_same:
  assumes "no_dirs m" "same_frame m m'" "same_dirs m m'"
  shows "no_dirs m'"
  unfolding no_dirs_def
proof (intro allI impI)
  fix p assume "in_grid m' p"
  then have p: "in_grid m p" using same_frame_in_grid[OF assms(2)] by simp
  show "valid_dirs (the_cell m' p) = Map.empty"
    using assms(1)[unfolded no_dirs_def, rule_format, OF p]
      assms(3)[unfolded same_dirs_def, rule_format, OF p] by simp
qed

lemma carved_total:
  assumes "0 < R" "0 < C"
  shows "\<exists>m g'. carved (Maze_fields w R C sx sy px py) g = Some (Inr (m, g')) \<and>
     Inv0 m {p. in_grid m p} \<and> visited_set m = {p. in_grid m p} \<and>
     num_rows m = R \<and> num_cols m = C \<and> win m = w \<and>
     (C * R < 1000 \<longrightarrow> InvR m \<and> no_dirs m) \<and> (\<not> C * R < 1000 \<longrightarrow> dirs_ok m)"
proof -
  from carve_start[OF assms, of w sx sy px py] obtain m0 m1 where
    n: "new_cells (Maze_fields w R C sx sy px py) = Inr m0"
    and o: "open_entrance_and_exit m0 = Inr m1" and s: "Start m1" and w1: "win m1 = w"
    and d: "num_rows m1 = R" "num_cols m1 = C" by blast
  show ?thesis
  proof (cases "C * R < 1000")
    case True
    from break_walls_r_total[OF s, of g] obtain m' g' where
      r: "break_walls_r m1 g 0 0 = Some (Inr (m', g'))" and inv: "InvR m'"
      and f: "same_frame m1 m'" and w: "win m' = win m1" and sd: "same_dirs m1 m'"
      and vs: "visited_set m' = {p. in_grid m1 p}" by blast
    have c: "carved (Maze_fields w R C sx sy px py) g = Some (Inr (m', g'))"
      using n o r True d by (simp add: carved_def break_walls_def)
    have vs': "visited_set m' = {p. in_grid m' p}" using vs same_frame_in_grid[OF f] by simp
    have "Inv0 m' {p. in_grid m' p}" using inv vs' by (simp add: InvR_def)
    moreover have "no_dirs m'" by (rule no_dirs_same[OF Start_no_dirs[OF s] f sd])
    ultimately show ?thesis using c vs' inv True w w1 d f by (auto simp: same_frame_def)
  next
    case False
    from break_walls_l_total[OF s, of g] obtain m' g' where
      r: "break_walls_l m1 g 0 0 = Some (Inr (m', g'))" and inv: "Inv0 m' (visited_set m')"
      and ok: "dirs_ok m'"
      and f: "same_frame m1 m'" and w: "win m' = win m1"
      and vs: "visited_set m' = {p. in_grid m1 p}" by blast
    have c: "carved (Maze_fields w R C sx sy px py) g = Some (Inr (m', g'))"
      using n o r False d by (simp add: carved_def break_walls_def)
    have vs': "visited_set m' = {p. in_grid m' p}" using vs same_frame_in_grid[OF f] by simp
    have "Inv0 m' {p. in_grid m' p}" using inv vs' by simp
    then show ?thesis using c vs' ok False w w1 d f by (auto simp: same_frame_def)
  qed
qed

lemma set_passages: "set (passages m) = passage_set m"
proof (rule set_eqI)
  fix e :: "idx \<times> idx"
  obtain p q where e: "e = (p, q)" by (cases e)
  have r: "in_grid m p \<Longrightarrow> (fst p + 1 < num_cols m) = in_grid m (fst p + 1, snd p)"
    by (auto simp: in_grid_def)
  have d: "in_grid m p \<Longrightarrow> (snd p + 1 < num_rows m) = in_grid m (fst p, snd p + 1)"
    by (auto simp: in_grid_def)
  have "e \<in> set (passages m) \<longleftrightarrow> in_grid m p \<and>
     ((q = (fst p + 1, snd p) \<and> fst p + 1 < num_cols m \<and> open_right m p) \<or>
      (q = (fst p, snd p + 1) \<and> snd p + 1 < num_rows m \<and> open_down m p))"
    unfolding passages_def e by (auto simp: set_grid_cells)
  also have "\<dots> \<longleftrightarrow> e \<in> passage_set m"
    unfolding passage_set_def e using r d by auto
  finally show "e \<in> set (passages m) \<longleftrightarrow> e \<in> passage_set m" .
qed

lemma distinct_passages: "distinct (passages m)"
  unfolding passages_def
  by (auto simp: distinct_map distinct_grid_cells inj_on_def)

lemma joined_passages: "joined (passages m) = sym_reach (passage_set m)"
  by (simp add: joined_def sym_reach_def set_passages)

lemma joined_removeAll: "joined (removeAll e (passages m)) = sym_reach (passage_set m - {e})"
  by (simp add: joined_def sym_reach_def set_passages)

lemma tree_maze:
  assumes "Inv0 m {p. in_grid m p}"
  shows "length (passages m) = nat (num_cols m) * nat (num_rows m) - 1" "connected_maze m"
    "cycle_free m"
proof -
  from assms have t: "tree_on (0, 0) {p. in_grid m p} (passage_set m)" by (simp add: Inv0_def)
  have "card (passage_set m) + 1 = card {p. in_grid m p}" using t by (simp add: tree_on_def)
  then have "card (passage_set m) = nat (num_cols m) * nat (num_rows m) - 1"
    by (simp add: card_in_grid)
  then show "length (passages m) = nat (num_cols m) * nat (num_rows m) - 1"
    using distinct_card[OF distinct_passages, of m] by (simp add: set_passages)
  show "connected_maze m"
    using t by (simp add: connected_maze_def list_all_iff set_grid_cells joined_passages tree_on_def)
  show "cycle_free m"
    using t by (simp add: cycle_free_def list_all_iff set_passages joined_removeAll tree_on_def)
qed

text \<open>
  Claim C1. For every number of rows and columns of at least one, every window, every size
  of the cells and every state of the random module, the carver that the constructor
  chooses (the recursive one below 1000 cells, the iterative one from 1000 cells on)
  returns, and the maze it has carved has exactly \<open>R * C - 1\<close> passages, every cell is
  joined to \<open>(0, 0)\<close>, and no passage lies on a cycle: the passages are a spanning tree
  of the cells.
\<close>

theorem carved_maze_is_spanning_tree:
  assumes "0 < R" "0 < C"
  shows "\<exists>m g'. carved (Maze_fields w R C sx sy px py) g = Some (Inr (m, g')) \<and>
     num_rows m = R \<and> num_cols m = C \<and>
     length (passages m) = nat (R * C) - 1 \<and> connected_maze m \<and> cycle_free m"
proof -
  from carved_total[OF assms, of w sx sy px py g] obtain m g' where
    c: "carved (Maze_fields w R C sx sy px py) g = Some (Inr (m, g'))"
    and i: "Inv0 m {p. in_grid m p}" and d: "num_rows m = R" "num_cols m = C" by blast
  have "nat (num_cols m) * nat (num_rows m) = nat (R * C)"
    using assms d by (simp add: nat_mult_distrib mult.commute)
  then show ?thesis using c d tree_maze[OF i] by auto
qed

theorem carved_maze_is_spanning_tree_witness:
  "(\<exists>m g'. carved (Maze_fields None 2 3 10 10 0 0) [1, 0, 2] = Some (Inr (m, g')) \<and>
     num_rows m = 2 \<and> num_cols m = 3 \<and>
     length (passages m) = 5 \<and> connected_maze m \<and> cycle_free m) \<and>
   (\<exists>m g'. carved (Maze_fields (Some \<lparr>moves = []\<rparr>) 40 25 10 10 0 0) [] = Some (Inr (m, g')) \<and>
     num_rows m = 40 \<and> num_cols m = 25 \<and>
     length (passages m) = 999 \<and> connected_maze m \<and> cycle_free m)"
  using carved_maze_is_spanning_tree[of 2 3 None 10 10 0 0 "[1, 0, 2]"]
    carved_maze_is_spanning_tree[of 40 25 "Some \<lparr>moves = []\<rparr>" 10 10 0 0 "[]"]
  by simp

subsection \<open>Degenerate dimensions\<close>

lemma map_const_replicate: "map (\<lambda>i. c) [0..<n] = replicate n c"
  by (induction n) (simp_all add: replicate_append_same)

text \<open>
  Claim C7. If \<^verbatim>\<open>num_rows\<close> or \<^verbatim>\<open>num_cols\<close> is not positive, the constructor returns
  without an exception; the maze has \<^verbatim>\<open>num_cols\<close> empty columns (none when \<^verbatim>\<open>num_cols\<close> is
  not positive) and so no cell; no wall is opened for an entrance or an exit, nothing is
  carved, solved or drawn (the window is the one passed in), and no random number is
  drawn: the random state changes only by the seeding that ends \<^verbatim>\<open>__init__\<close>.
\<close>

theorem no_carving_without_cells:
  assumes "R \<le> 0 \<or> C \<le> 0"
  shows "Maze_init seeder w R C sx sy px py sd g =
     Some (Inr ((Maze_fields w R C sx sy px py)\<lparr>cells := replicate (nat C) [], seed := sd\<rparr>,
       (case sd of None \<Rightarrow> g | Some k \<Rightarrow> if k \<noteq> 0 then seeder k else g)))"
proof -
  let ?m = "Maze_fields w R C sx sy px py"
  have c: "cells ?m = []" by (simp add: Maze_fields_def)
  have "map (\<lambda>i. map (\<lambda>j. fresh_cell ?m (int i) (int j)) [0..<nat (num_rows ?m)]) [0..<nat (num_cols ?m)]
      = replicate (nat C) []"
  proof (cases "R \<le> 0")
    case True
    then show ?thesis by (simp add: Maze_fields_def map_const_replicate)
  next
    case False
    then have "C \<le> 0" using assms by simp
    then show ?thesis by (simp add: Maze_fields_def)
  qed
  then have n: "new_cells ?m = Inr (?m\<lparr>cells := replicate (nat C) []\<rparr>)"
    using new_cells_eq[OF c] by simp
  have "\<not> (0 < C \<and> 0 < R)" using assms by auto
  then show ?thesis
    by (simp add: Maze_init_def create_cells_def n) (auto simp: Maze_fields_def)
qed

theorem no_carving_without_cells_witness:
  "Maze_init (\<lambda>k. [nat k]) None 0 3 10 10 0 0 (Some 5) [7] =
     Some (Inr ((Maze_fields None 0 3 10 10 0 0)\<lparr>cells := [[], [], []], seed := Some 5\<rparr>, [5]))
   \<and> Maze_init (\<lambda>k. [nat k]) None 4 (- 1) 10 10 0 0 None [7] =
     Some (Inr ((Maze_fields None 4 (- 1) 10 10 0 0)\<lparr>cells := [], seed := None\<rparr>, [7]))"
  using no_carving_without_cells[of 0 3 "\<lambda>k. [nat k]" None 10 10 0 0 "Some 5" "[7]"]
    no_carving_without_cells[of 4 "- 1" "\<lambda>k. [nat k]" None 10 10 0 0 None "[7]"]
  by (simp add: numeral_3_eq_3)

subsection \<open>Resetting the visited flags\<close>

lemma unmarked_trans: "unmarked m m' \<Longrightarrow> unmarked m' m'' \<Longrightarrow> unmarked m m''"
  unfolding unmarked_def
  using same_frame_trans same_walls_trans same_dirs_trans by (metis (no_types))

lemma clear_column:
  assumes "grid_ok m" "0 \<le> i" "i < num_cols m" "\<forall>j\<in>set js. 0 \<le> j \<and> j < num_rows m"
  shows "\<exists>m'. for_each js (\<lambda>j m'. cell_set m' i j (\<lambda>c. c\<lparr>visited := False\<rparr>)) m = Inr m' \<and>
     unmarked m m' \<and>
     (\<forall>q. in_grid m q \<longrightarrow> visited (the_cell m' q) =
        (visited (the_cell m q) \<and> \<not> (fst q = i \<and> snd q \<in> set js)))"
  using assms
proof (induction js arbitrary: m)
  case Nil
  then show ?case by (simp add: unmarked_def)
next
  case (Cons j js)
  have p: "in_grid m (i, j)" using Cons.prems by (simp add: in_grid_def)
  let ?m1 = "upd m (i, j) (\<lambda>c. c\<lparr>visited := False\<rparr>)"
  have s: "cell_set m i j (\<lambda>c. c\<lparr>visited := False\<rparr>) = Inr ?m1"
    by (rule cell_set_in[OF Cons.prems(1) p])
  have c: "the_cell ?m1 q = (if q = (i, j) then (the_cell m (i, j))\<lparr>visited := False\<rparr> else the_cell m q)"
    if "in_grid m q" for q using Cons.prems(1) p that by (simp add: the_cell_upd)
  have u1: "unmarked m ?m1"
    unfolding unmarked_def same_walls_def same_dirs_def using Cons.prems(1) c by auto
  have "\<exists>m'. for_each js (\<lambda>j m'. cell_set m' i j (\<lambda>c. c\<lparr>visited := False\<rparr>)) ?m1 = Inr m' \<and>
     unmarked ?m1 m' \<and>
     (\<forall>q. in_grid ?m1 q \<longrightarrow> visited (the_cell m' q) =
        (visited (the_cell ?m1 q) \<and> \<not> (fst q = i \<and> snd q \<in> set js)))"
    using Cons.prems by (intro Cons.IH) simp_all
  then obtain m' where r: "for_each js (\<lambda>j m'. cell_set m' i j (\<lambda>c. c\<lparr>visited := False\<rparr>)) ?m1 = Inr m'"
    and u: "unmarked ?m1 m'"
    and v: "\<forall>q. in_grid ?m1 q \<longrightarrow> visited (the_cell m' q) =
        (visited (the_cell ?m1 q) \<and> \<not> (fst q = i \<and> snd q \<in> set js))"
    by blast
  have "visited (the_cell m' q) = (visited (the_cell m q) \<and> \<not> (fst q = i \<and> snd q \<in> set (j # js)))"
    if "in_grid m q" for q
    using v[rule_format, of q] c[OF that] that by (cases q) auto
  then show ?case using s r unmarked_trans[OF u1 u] by simp
qed

lemma clear_columns:
  assumes "grid_ok m" "\<forall>i\<in>set is. 0 \<le> i \<and> i < num_cols m"
  shows "\<exists>m'. for_each is (\<lambda>i. for_each (py_range (num_rows m)) (\<lambda>j m'.
         cell_set m' i j (\<lambda>c. c\<lparr>visited := False\<rparr>))) m = Inr m' \<and> unmarked m m' \<and>
     (\<forall>q. in_grid m q \<longrightarrow> visited (the_cell m' q) = (visited (the_cell m q) \<and> fst q \<notin> set is))"
  using assms
proof (induction "is" arbitrary: m)
  case Nil
  then show ?case by (simp add: unmarked_def)
next
  case (Cons i "is")
  have "\<forall>j\<in>set (py_range (num_rows m)). 0 \<le> j \<and> j < num_rows m" by (simp add: set_py_range)
  from clear_column[OF Cons.prems(1) _ _ this, of i] Cons.prems(2)
  obtain m1 where s: "for_each (py_range (num_rows m)) (\<lambda>j m'.
         cell_set m' i j (\<lambda>c. c\<lparr>visited := False\<rparr>)) m = Inr m1" and u1: "unmarked m m1"
    and v1: "\<forall>q. in_grid m q \<longrightarrow> visited (the_cell m1 q) =
        (visited (the_cell m q) \<and> \<not> (fst q = i \<and> snd q \<in> set (py_range (num_rows m))))"
    by auto
  have f1: "same_frame m m1" using u1 by (simp add: unmarked_def)
  have d1: "num_rows m1 = num_rows m" "num_cols m1 = num_cols m" "grid_ok m1"
    using f1 by (simp_all add: same_frame_def)
  have "\<exists>m'. for_each is (\<lambda>i. for_each (py_range (num_rows m1)) (\<lambda>j m'.
         cell_set m' i j (\<lambda>c. c\<lparr>visited := False\<rparr>))) m1 = Inr m' \<and> unmarked m1 m' \<and>
     (\<forall>q. in_grid m1 q \<longrightarrow> visited (the_cell m' q) = (visited (the_cell m1 q) \<and> fst q \<notin> set is))"
    using Cons.prems d1 by (intro Cons.IH) simp_all
  then obtain m' where r: "for_each is (\<lambda>i. for_each (py_range (num_rows m)) (\<lambda>j m'.
         cell_set m' i j (\<lambda>c. c\<lparr>visited := False\<rparr>))) m1 = Inr m'" and u: "unmarked m1 m'"
    and v: "\<forall>q. in_grid m1 q \<longrightarrow> visited (the_cell m' q) = (visited (the_cell m1 q) \<and> fst q \<notin> set is)"
    using d1 by auto
  have "visited (the_cell m' q) = (visited (the_cell m q) \<and> fst q \<notin> set (i # is))"
    if "in_grid m q" for q
    using v[rule_format, of q] v1[rule_format, OF that] that same_frame_in_grid[OF f1, of q]
    by (auto simp: set_py_range in_grid_def)
  then show ?case using s r unmarked_trans[OF u1 u] by simp
qed

lemma clear_visited_in:
  assumes "grid_ok m"
  shows "\<exists>m'. clear_visited m = Inr m' \<and> unmarked m m' \<and> visited_set m' = {}"
proof -
  have "\<forall>i\<in>set (py_range (num_cols m)). 0 \<le> i \<and> i < num_cols m" by (simp add: set_py_range)
  from clear_columns[OF assms this] obtain m' where
    c: "clear_visited m = Inr m'" and u: "unmarked m m'"
    and v: "\<forall>q. in_grid m q \<longrightarrow> visited (the_cell m' q) =
       (visited (the_cell m q) \<and> fst q \<notin> set (py_range (num_cols m)))"
    by (auto simp: clear_visited_def)
  have f: "same_frame m m'" using u by (simp add: unmarked_def)
  have "\<not> visited (the_cell m' q)" if "in_grid m' q" for q
    using v[rule_format, of q] that same_frame_in_grid[OF f, of q]
    by (auto simp: set_py_range in_grid_def)
  then show ?thesis using c u by (auto simp: visited_set_def)
qed

lemma layout_eq:
  assumes "grid_ok m" "same_frame m m'" "same_walls m m'"
  shows "layout m' = layout m"
proof -
  have g': "grid_ok m'" and d: "num_cols m' = num_cols m" "num_rows m' = num_rows m"
    using assms(2) by (simp_all add: same_frame_def)
  have len: "length (cells m') = length (cells m)" using assms(1) g' d by (simp add: grid_ok_def)
  have col: "length (cells m' ! k) = nat (num_rows m)" "length (cells m ! k) = nat (num_rows m)"
    if "k < length (cells m)" for k
    using that assms(1) g' d len by (simp_all add: grid_ok_def list_all_length)
  have "map (\<lambda>c. (has_left_wall c, has_right_wall c, has_top_wall c, has_bottom_wall c)) (cells m' ! k)
      = map (\<lambda>c. (has_left_wall c, has_right_wall c, has_top_wall c, has_bottom_wall c)) (cells m ! k)"
    if k: "k < length (cells m)" for k
  proof (rule nth_equalityI)
    show "length (map (\<lambda>c. (has_left_wall c, has_right_wall c, has_top_wall c, has_bottom_wall c)) (cells m' ! k))
      = length (map (\<lambda>c. (has_left_wall c, has_right_wall c, has_top_wall c, has_bottom_wall c)) (cells m ! k))"
      using col[OF k] by simp
    fix l assume "l < length (map (\<lambda>c. (has_left_wall c, has_right_wall c, has_top_wall c, has_bottom_wall c)) (cells m' ! k))"
    then have l: "l < nat (num_rows m)" using col[OF k] by simp
    have q: "in_grid m (int k, int l)" using k l assms(1) by (auto simp: in_grid_def grid_ok_def)
    show "map (\<lambda>c. (has_left_wall c, has_right_wall c, has_top_wall c, has_bottom_wall c)) (cells m' ! k) ! l
      = map (\<lambda>c. (has_left_wall c, has_right_wall c, has_top_wall c, has_bottom_wall c)) (cells m ! k) ! l"
      using same_walls_D[OF assms(3) q] l col[OF k] by (simp add: the_cell_def)
  qed
  then show ?thesis
    unfolding layout_def using len by (intro nth_equalityI) simp_all
qed

subsection \<open>The maze that is solved\<close>

lemma before_solve_total:
  assumes "0 < R" "0 < C"
  shows "\<exists>mc mr g'. carved (Maze_fields w R C sx sy px py) g = Some (Inr (mc, g')) \<and>
     Inv0 mc {p. in_grid mc p} \<and> visited_set mc = {p. in_grid mc p} \<and>
     (C * R < 1000 \<longrightarrow> InvR mc \<and> no_dirs mc) \<and> (\<not> C * R < 1000 \<longrightarrow> dirs_ok mc) \<and>
     clear_visited mc = Inr mr \<and> unmarked mc mr \<and> visited_set mr = {} \<and>
     num_rows mr = R \<and> num_cols mr = C \<and> win mr = w \<and>
     before_solve (Maze_fields w R C sx sy px py) g = Some (Inr (mr, g')) \<and>
     create_cells (Maze_fields w R C sx sy px py) g = bindC (solve mr) (\<lambda>m. Some (Inr (m, g')))"
proof -
  from carved_total[OF assms, of w sx sy px py g] obtain mc g' where
    c: "carved (Maze_fields w R C sx sy px py) g = Some (Inr (mc, g'))"
    and i: "Inv0 mc {p. in_grid mc p}" and v: "visited_set mc = {p. in_grid mc p}"
    and d: "num_rows mc = R" "num_cols mc = C" "win mc = w"
    and sm: "C * R < 1000 \<longrightarrow> InvR mc \<and> no_dirs mc" and lg: "\<not> C * R < 1000 \<longrightarrow> dirs_ok mc"
    by blast
  have g: "grid_ok mc" using i by (simp add: Inv0_def)
  from clear_visited_in[OF g] obtain mr where
    cl: "clear_visited mc = Inr mr" and u: "unmarked mc mr" and vr: "visited_set mr = {}" by blast
  have dr: "num_rows mr = R" "num_cols mr = C" "win mr = w"
    using u d by (simp_all add: unmarked_def same_frame_def)
  have b: "before_solve (Maze_fields w R C sx sy px py) g = Some (Inr (mr, g'))"
    by (simp add: before_solve_def c cl)
  obtain m0 where n: "new_cells (Maze_fields w R C sx sy px py) = Inr m0"
    using new_cells_grid[of w R C sx sy px py] by blast
  note fl = new_cells_fields[OF n]
  obtain m1 where o: "open_entrance_and_exit m0 = Inr m1" and bw: "break_walls m1 g = Some (Inr (mc, g'))"
    using c n by (auto simp: carved_def bindC_def bindE_def split: sum.splits)
  have "create_cells (Maze_fields w R C sx sy px py) g = bindC (solve mr) (\<lambda>m. Some (Inr (m, g')))"
    using assms by (simp add: create_cells_def n fl break_entrance_and_exit_def o bw
        reset_cells_visited_def cl)
  then show ?thesis using c i v sm lg cl u vr dr b by blast
qed

lemma visited_set_all: "visited_set m = {p. in_grid m p} \<Longrightarrow> list_all (\<lambda>p. visited (the_cell m p)) (grid_cells m)"
  by (auto simp: list_all_iff set_grid_cells visited_set_def)

lemma visited_set_none: "visited_set m = {} \<Longrightarrow> list_all (\<lambda>p. \<not> visited (the_cell m p)) (grid_cells m)"
  by (auto simp: list_all_iff set_grid_cells visited_set_def)

text \<open>
  Claim C8. The carver leaves every cell visited. \<^verbatim>\<open>__reset_cells_visited\<close> is called once,
  by \<^verbatim>\<open>__break_entrance_and_exit\<close> when the carver has returned; its loops end, leave each
  of the \<^verbatim>\<open>num_cols * num_rows\<close> cells unvisited and the walls as they are, and only then
  \<^verbatim>\<open>solve\<close> is called, on that maze.
\<close>

theorem visited_reset_between_carving_and_solving:
  assumes "0 < R" "0 < C"
  shows "\<exists>mc mr g'. carved (Maze_fields w R C sx sy px py) g = Some (Inr (mc, g')) \<and>
     list_all (\<lambda>p. visited (the_cell mc p)) (grid_cells mc) \<and>
     clear_visited mc = Inr mr \<and>
     list_all (\<lambda>p. \<not> visited (the_cell mr p)) (grid_cells mr) \<and>
     length (grid_cells mr) = nat (C * R) \<and> layout mr = layout mc \<and>
     before_solve (Maze_fields w R C sx sy px py) g = Some (Inr (mr, g')) \<and>
     create_cells (Maze_fields w R C sx sy px py) g = bindC (solve mr) (\<lambda>m. Some (Inr (m, g')))"
proof -
  from before_solve_total[OF assms, of w sx sy px py g] obtain mc mr g' where
    c: "carved (Maze_fields w R C sx sy px py) g = Some (Inr (mc, g'))"
    and i: "Inv0 mc {p. in_grid mc p}" and v: "visited_set mc = {p. in_grid mc p}"
    and cl: "clear_visited mc = Inr mr" and u: "unmarked mc mr" and vr: "visited_set mr = {}"
    and d: "num_rows mr = R" "num_cols mr = C"
    and b: "before_solve (Maze_fields w R C sx sy px py) g = Some (Inr (mr, g'))"
    and cc: "create_cells (Maze_fields w R C sx sy px py) g = bindC (solve mr) (\<lambda>m. Some (Inr (m, g')))"
    by blast
  have g: "grid_ok mc" using i by (simp add: Inv0_def)
  have l: "layout mr = layout mc"
    using u by (intro layout_eq[OF g]) (simp_all add: unmarked_def)
  have n: "length (grid_cells mr) = nat (C * R)"
    using assms d by (simp add: length_grid_cells nat_mult_distrib)
  show ?thesis
    using c visited_set_all[OF v] cl visited_set_none[OF vr] n l b cc by blast
qed

theorem visited_reset_between_carving_and_solving_witness:
  "\<exists>mc mr g'. carved (Maze_fields None 3 2 10 10 0 0) [4, 1] = Some (Inr (mc, g')) \<and>
     list_all (\<lambda>p. visited (the_cell mc p)) (grid_cells mc) \<and>
     clear_visited mc = Inr mr \<and>
     list_all (\<lambda>p. \<not> visited (the_cell mr p)) (grid_cells mr) \<and>
     length (grid_cells mr) = 6 \<and> layout mr = layout mc \<and>
     before_solve (Maze_fields None 3 2 10 10 0 0) [4, 1] = Some (Inr (mr, g')) \<and>
     create_cells (Maze_fields None 3 2 10 10 0 0) [4, 1] = bindC (solve mr) (\<lambda>m. Some (Inr (m, g')))"
  using visited_reset_between_carving_and_solving[of 3 2 None 10 10 0 0 "[4, 1]"]
  by simp

subsection \<open>Direction markers after generation\<close>

lemma passage_dirs:
  assumes ok: "dirs_ok m" and e: "(p, q) \<in> passage_set m"
  shows "valid_dirs (the_cell m p) (dir_key p q) = Some True"
    "valid_dirs (the_cell m q) (dir_key q p) = Some True"
proof -
  from e have pq: "in_grid m p" "in_grid m q" and
    c: "q = (fst p + 1, snd p) \<or> q = (fst p, snd p + 1)"
    by (auto simp: passage_set_def)
  have adj: "adjacent p q" "adjacent q p" using c by (auto simp: adjacent_def)
  have ed: "edge p q = (p, q)" "edge q p = (p, q)" using c by (auto simp: edge_def)
  show "valid_dirs (the_cell m p) (dir_key p q) = Some True"
    using ok[unfolded dirs_ok_def, rule_format, of p q] pq adj ed e by simp
  show "valid_dirs (the_cell m q) (dir_key q p) = Some True"
    using ok[unfolded dirs_ok_def, rule_format, of q p] pq adj ed e by simp
qed

lemma dirs_ok_unmarked: "dirs_ok m \<Longrightarrow> unmarked m m' \<Longrightarrow> dirs_ok m'"
  by (auto simp: unmarked_def intro: dirs_ok_same)

lemma no_dirs_unmarked: "no_dirs m \<Longrightarrow> unmarked m m' \<Longrightarrow> no_dirs m'"
  by (auto simp: unmarked_def intro: no_dirs_same)

text \<open>
  Claim C10. \<^verbatim>\<open>__break_walls_r\<close> never writes to \<^verbatim>\<open>valid_dirs\<close>: on a grid of less
  than 1000 cells, the \<^verbatim>\<open>valid_dirs\<close> of every cell of the maze that \<^verbatim>\<open>solve\<close> is called
  on is the empty dictionary of \<^verbatim>\<open>Cell.__init__\<close>. On a grid of 1000 cells or more
  \<^verbatim>\<open>__break_walls_l\<close> has set, for every passage, the marker of its direction to \<^verbatim>\<open>True\<close> in
  both cells.
\<close>

theorem markers_only_from_iterative_carver:
  assumes "0 < R" "0 < C"
  shows "\<exists>m g'. before_solve (Maze_fields w R C sx sy px py) g = Some (Inr (m, g')) \<and>
     (C * R < 1000 \<longrightarrow>
        list_all (\<lambda>p. valid_dirs (the_cell m p) = Map.empty) (grid_cells m)) \<and>
     (\<not> C * R < 1000 \<longrightarrow>
        list_all (\<lambda>(p, q). valid_dirs (the_cell m p) (dir_key p q) = Some True \<and>
                    valid_dirs (the_cell m q) (dir_key q p) = Some True) (passages m))"
proof -
  from before_solve_total[OF assms, of w sx sy px py g] obtain mc mr g' where
    sm: "C * R < 1000 \<longrightarrow> InvR mc \<and> no_dirs mc" and lg: "\<not> C * R < 1000 \<longrightarrow> dirs_ok mc"
    and u: "unmarked mc mr"
    and b: "before_solve (Maze_fields w R C sx sy px py) g = Some (Inr (mr, g'))"
    by blast
  have 1: "list_all (\<lambda>p. valid_dirs (the_cell mr p) = Map.empty) (grid_cells mr)" if "C * R < 1000"
    using no_dirs_unmarked[OF _ u] sm that
    by (auto simp: list_all_iff set_grid_cells no_dirs_def)
  have 2: "list_all (\<lambda>(p, q). valid_dirs (the_cell mr p) (dir_key p q) = Some True \<and>
                    valid_dirs (the_cell mr q) (dir_key q p) = Some True) (passages mr)"
    if "\<not> C * R < 1000"
    using passage_dirs[OF dirs_ok_unmarked[OF _ u]] lg that
    by (auto simp: list_all_iff set_passages)
  show ?thesis using b 1 2 by blast
qed

theorem markers_only_from_iterative_carver_witness:
  "(\<exists>m g'. before_solve (Maze_fields None 2 2 10 10 0 0) [1] = Some (Inr (m, g')) \<and>
      list_all (\<lambda>p. valid_dirs (the_cell m p) = Map.empty) (grid_cells m)) \<and>
   (\<exists>m g'. before_solve (Maze_fields None 20 50 10 10 0 0) [1] = Some (Inr (m, g')) \<and>
      list_all (\<lambda>(p, q). valid_dirs (the_cell m p) (dir_key p q) = Some True \<and>
                    valid_dirs (the_cell m q) (dir_key q p) = Some True) (passages m))"
  using markers_only_from_iterative_carver[of 2 2 None 10 10 0 0 "[1]"]
    markers_only_from_iterative_carver[of 20 50 None 10 10 0 0 "[1]"]
  by simp

subsection \<open>Walls are removed in pairs\<close>

lemma fresh_consistent:
  assumes "\<forall>p. in_grid m p \<longrightarrow> the_cell m p = fresh_cell m (fst p) (snd p)"
  shows "wall_consistent m"
  unfolding wall_consistent_iff
proof (intro allI impI conjI)
  fix p assume p: "in_grid m p" and r: "fst p + 1 < num_cols m"
  have q: "in_grid m (fst p + 1, snd p)" using p r by (simp add: in_grid_def)
  show "has_right_wall (the_cell m p) = has_left_wall (the_cell m (fst p + 1, snd p))"
    using assms[rule_format, OF p] assms[rule_format, OF q] by (simp add: fresh_cell_def Cell_init_def)
next
  fix p assume p: "in_grid m p" and r: "snd p + 1 < num_rows m"
  have q: "in_grid m (fst p, snd p + 1)" using p r by (simp add: in_grid_def)
  show "has_bottom_wall (the_cell m p) = has_top_wall (the_cell m (fst p, snd p + 1))"
    using assms[rule_format, OF p] assms[rule_format, OF q] by (simp add: fresh_cell_def Cell_init_def)
qed

text \<open>
  Claim C6. The wall flags of neighbouring cells agree in the grid as it is created, after
  the entrance and the exit are opened (those two walls have no cell on their other side),
  after the removal of a pair of walls by either carver, from any grid in which they agree,
  and in the maze that the carver returns.
\<close>

theorem walls_cleared_in_matching_pairs:
  assumes "0 < R" "0 < C"
  shows "(\<exists>m0 m1 m g'. new_cells (Maze_fields w R C sx sy px py) = Inr m0 \<and> wall_consistent m0 \<and>
       open_entrance_and_exit m0 = Inr m1 \<and> wall_consistent m1 \<and>
       carved (Maze_fields w R C sx sy px py) g = Some (Inr (m, g')) \<and> wall_consistent m) \<and>
     (\<forall>m a b. grid_ok m \<and> wall_consistent m \<and> in_grid m a \<and> in_grid m b \<and> adjacent a b \<longrightarrow>
        (\<exists>m'. carve_r m (fst a) (snd a) (fst b) (snd b) = Inr m' \<and> wall_consistent m') \<and>
        (\<exists>m'. carve_l m (fst a) (snd a) (fst b) (snd b) = Inr m' \<and> wall_consistent m'))"
proof (intro conjI allI impI)
  from new_cells_grid[of w R C sx sy px py] obtain m0 where
    n: "new_cells (Maze_fields w R C sx sy px py) = Inr m0"
    and c0: "\<forall>p. in_grid m0 p \<longrightarrow> the_cell m0 p = fresh_cell m0 (fst p) (snd p)" by blast
  from carve_start[OF assms, of w sx sy px py] n obtain m1 where
    o: "open_entrance_and_exit m0 = Inr m1" and s: "Start m1" by auto
  from carved_total[OF assms, of w sx sy px py g] obtain m g' where
    c: "carved (Maze_fields w R C sx sy px py) g = Some (Inr (m, g'))"
    and i: "Inv0 m {p. in_grid m p}" by blast
  show "\<exists>m0 m1 m g'. new_cells (Maze_fields w R C sx sy px py) = Inr m0 \<and> wall_consistent m0 \<and>
       open_entrance_and_exit m0 = Inr m1 \<and> wall_consistent m1 \<and>
       carved (Maze_fields w R C sx sy px py) g = Some (Inr (m, g')) \<and> wall_consistent m"
    using n fresh_consistent[OF c0] o Start_consistent[OF s] c i by (auto simp: Inv0_def)
next
  fix m :: maze and a b :: idx
  assume h: "grid_ok m \<and> wall_consistent m \<and> in_grid m a \<and> in_grid m b \<and> adjacent a b"
  then have g: "grid_ok m" and wc: "wall_consistent m" and a: "in_grid m (fst a, snd a)"
    and b: "in_grid m (fst b, snd b)" and adj: "adjacent (fst a, snd a) (fst b, snd b)" by simp_all
  from carve_r_in[OF g a b adj] obtain m' where
    "carve_r m (fst a) (snd a) (fst b) (snd b) = Inr m'" "links m (fst a, snd a) (fst b, snd b) m'"
    by blast
  then show "\<exists>m'. carve_r m (fst a) (snd a) (fst b) (snd b) = Inr m' \<and> wall_consistent m'"
    using links_consistent[OF _ wc adj] by blast
  from carve_l_in[OF g a b adj] obtain m' where
    "carve_l m (fst a) (snd a) (fst b) (snd b) = Inr m'" "links m (fst a, snd a) (fst b, snd b) m'"
    by blast
  then show "\<exists>m'. carve_l m (fst a) (snd a) (fst b) (snd b) = Inr m' \<and> wall_consistent m'"
    using links_consistent[OF _ wc adj] by blast
qed

theorem walls_cleared_in_matching_pairs_witness:
  "(\<exists>m0 m1 m g'. new_cells (Maze_fields None 2 2 10 10 0 0) = Inr m0 \<and> wall_consistent m0 \<and>
       open_entrance_and_exit m0 = Inr m1 \<and> wall_consistent m1 \<and>
       carved (Maze_fields None 2 2 10 10 0 0) [0] = Some (Inr (m, g')) \<and> wall_consistent m) \<and>
   (\<exists>m'. carve_r ((Maze_fields None 1 2 10 10 0 0)\<lparr>cells := [[Cell_init], [Cell_init]]\<rparr>)
            0 0 1 0 = Inr m' \<and> wall_consistent m') \<and>
   (\<exists>m'. carve_l ((Maze_fields None 1 2 10 10 0 0)\<lparr>cells := [[Cell_init], [Cell_init]]\<rparr>)
            0 0 1 0 = Inr m' \<and> wall_consistent m')"
proof -
  let ?M = "(Maze_fields None 1 2 10 10 0 0)\<lparr>cells := [[Cell_init], [Cell_init]]\<rparr>"
  note t = walls_cleared_in_matching_pairs[of 2 2 None 10 10 0 0 "[0]"]
  have h: "grid_ok ?M \<and> wall_consistent ?M \<and> in_grid ?M (0, 0) \<and> in_grid ?M (1, 0) \<and>
      adjacent (0, 0) (1, 0)"
    by (simp add: grid_ok_def wall_consistent_def grid_cells_def py_range_def in_grid_def
        adjacent_def the_cell_def Cell_init_def Maze_fields_def numeral_2_eq_2)
  from t have 1: "\<exists>m0 m1 m g'. new_cells (Maze_fields None 2 2 10 10 0 0) = Inr m0 \<and> wall_consistent m0 \<and>
       open_entrance_and_exit m0 = Inr m1 \<and> wall_consistent m1 \<and>
       carved (Maze_fields None 2 2 10 10 0 0) [0] = Some (Inr (m, g')) \<and> wall_consistent m"
    by simp
  from t have "\<forall>m a b. grid_ok m \<and> wall_consistent m \<and> in_grid m a \<and> in_grid m b \<and> adjacent a b \<longrightarrow>
        (\<exists>m'. carve_r m (fst a) (snd a) (fst b) (snd b) = Inr m' \<and> wall_consistent m') \<and>
        (\<exists>m'. carve_l m (fst a) (snd a) (fst b) (snd b) = Inr m' \<and> wall_consistent m')"
    by simp
  from this[rule_format, of ?M "(0, 0)" "(1, 0)", OF h] 1 show ?thesis by simp
qed

subsection \<open>The iterative solver\<close>

lemma draw_move_red:
  assumes "grid_ok m" "in_grid m a" "in_grid m b" "win m = Some w"
  shows "draw_move m a b False = Inr (m\<lparr>win := Some (w\<lparr>moves := moves w @ [(a, b, False)]\<rparr>)\<rparr>)"
  using assms cell_at_in[of m "fst a" "snd a"] cell_at_in[of m "fst b" "snd b"]
  by (simp add: draw_move_def)

lemma win_fields [simp]:
  "cells (m\<lparr>win := x\<rparr>) = cells m" "num_cols (m\<lparr>win := x\<rparr>) = num_cols m"
  "num_rows (m\<lparr>win := x\<rparr>) = num_rows m"
  by simp_all

lemma the_cell_win [simp]: "the_cell (m\<lparr>win := x\<rparr>) p = the_cell m p"
  by (simp add: the_cell_def)

lemma in_grid_win [simp]: "in_grid (m\<lparr>win := x\<rparr>) p = in_grid m p"
  by (simp add: in_grid_def)

lemma grid_ok_win [simp]: "grid_ok (m\<lparr>win := x\<rparr>) = grid_ok m"
  by (simp add: grid_ok_def)

lemma upd_win: "upd (m\<lparr>win := x\<rparr>) p f = (upd m p f)\<lparr>win := x\<rparr>"
  by (simp add: upd_def the_cell_def)

lemma wall_is_passage:
  assumes wc: "wall_consistent m" and a: "in_grid m (i, j)"
  shows "in_grid m (i - 1, j) \<Longrightarrow> (\<not> has_left_wall (the_cell m (i, j))) = open_to m (i, j) (i - 1, j)"
    "in_grid m (i + 1, j) \<Longrightarrow> (\<not> has_right_wall (the_cell m (i, j))) = open_to m (i, j) (i + 1, j)"
    "in_grid m (i, j - 1) \<Longrightarrow> (\<not> has_top_wall (the_cell m (i, j))) = open_to m (i, j) (i, j - 1)"
    "in_grid m (i, j + 1) \<Longrightarrow> (\<not> has_bottom_wall (the_cell m (i, j))) = open_to m (i, j) (i, j + 1)"
proof -
  assume b: "in_grid m (i - 1, j)"
  have "fst (i - 1, j) + 1 < num_cols m" using a by (simp add: in_grid_def)
  from wall_consistentD(1)[OF wc b this]
  show "(\<not> has_left_wall (the_cell m (i, j))) = open_to m (i, j) (i - 1, j)"
    using a b by (simp add: open_to_def edge_def passage_set_def open_right_def)
next
  assume b: "in_grid m (i + 1, j)"
  have "fst (i, j) + 1 < num_cols m" using b by (simp add: in_grid_def)
  from wall_consistentD(1)[OF wc a this]
  show "(\<not> has_right_wall (the_cell m (i, j))) = open_to m (i, j) (i + 1, j)"
    using a b by (simp add: open_to_def edge_def passage_set_def open_right_def)
next
  assume b: "in_grid m (i, j - 1)"
  have "snd (i, j - 1) + 1 < num_rows m" using a by (simp add: in_grid_def)
  from wall_consistentD(2)[OF wc b this]
  show "(\<not> has_top_wall (the_cell m (i, j))) = open_to m (i, j) (i, j - 1)"
    using a b by (simp add: open_to_def edge_def passage_set_def open_down_def)
next
  assume b: "in_grid m (i, j + 1)"
  have "snd (i, j) + 1 < num_rows m" using b by (simp add: in_grid_def)
  from wall_consistentD(2)[OF wc a this]
  show "(\<not> has_bottom_wall (the_cell m (i, j))) = open_to m (i, j) (i, j + 1)"
    using a b by (simp add: open_to_def edge_def passage_set_def open_down_def)
qed

lemma explored_refl: "grid_ok m \<Longrightarrow> win m \<noteq> None \<Longrightarrow> explored a (stack, m) (stack, m)"
  by (simp add: explored_def)

lemma explored_trans:
  assumes "explored a sm sm1" "explored a sm1 sm2"
  shows "explored a sm sm2"
proof -
  from assms(1) obtain ts where f1: "same_frame (snd sm) (snd sm1)" and w1: "same_walls (snd sm) (snd sm1)"
    and d1: "same_dirs (snd sm) (snd sm1)"
    and t1: "fst sm1 = fst sm @ ts" "drawn (snd sm1) = drawn (snd sm) @ map (\<lambda>b. (a, b, False)) ts"
      "distinct ts" "visited_set (snd sm1) = visited_set (snd sm) \<union> set ts"
      "set ts \<inter> visited_set (snd sm) = {}"
      "\<forall>b\<in>set ts. in_grid (snd sm) b \<and> adjacent a b \<and> open_to (snd sm) a b"
    unfolding explored_def by blast
  from assms(2) obtain us where f2: "same_frame (snd sm1) (snd sm2)" and w2: "same_walls (snd sm1) (snd sm2)"
    and d2: "same_dirs (snd sm1) (snd sm2)" and n2: "win (snd sm2) \<noteq> None"
    and t2: "fst sm2 = fst sm1 @ us" "drawn (snd sm2) = drawn (snd sm1) @ map (\<lambda>b. (a, b, False)) us"
      "distinct us" "visited_set (snd sm2) = visited_set (snd sm1) \<union> set us"
      "set us \<inter> visited_set (snd sm1) = {}"
      "\<forall>b\<in>set us. in_grid (snd sm1) b \<and> adjacent a b \<and> open_to (snd sm1) a b"
    unfolding explored_def by blast
  have p: "passage_set (snd sm1) = passage_set (snd sm)" by (rule same_walls_passages[OF w1 f1])
  note g = same_frame_in_grid[OF f1]
  have "fst sm2 = fst sm @ (ts @ us)" using t1 t2 by simp
  moreover have "drawn (snd sm2) = drawn (snd sm) @ map (\<lambda>b. (a, b, False)) (ts @ us)"
    using t1 t2 by simp
  moreover have "distinct (ts @ us)" using t1 t2 by auto
  moreover have "visited_set (snd sm2) = visited_set (snd sm) \<union> set (ts @ us)" using t1 t2 by auto
  moreover have "set (ts @ us) \<inter> visited_set (snd sm) = {}" using t1 t2 by auto
  moreover have "\<forall>b\<in>set (ts @ us). in_grid (snd sm) b \<and> adjacent a b \<and> open_to (snd sm) a b"
    using t1(6) t2(6) g p by (auto simp: open_to_def)
  ultimately show ?thesis
    unfolding explored_def
    using same_frame_trans[OF f1 f2] same_walls_trans[OF w1 f1 w2] same_dirs_trans[OF d1 f1 d2] n2
    by blast
qed

lemma same_frame_win [simp]: "same_frame m (m'\<lparr>win := x\<rparr>) = same_frame m m'"
  by (simp add: same_frame_def)

lemma same_walls_win [simp]: "same_walls m (m'\<lparr>win := x\<rparr>) = same_walls m m'"
  by (simp add: same_walls_def)

lemma same_dirs_win [simp]: "same_dirs m (m'\<lparr>win := x\<rparr>) = same_dirs m m'"
  by (simp add: same_dirs_def)

lemma visited_set_win [simp]: "visited_set (m\<lparr>win := x\<rparr>) = visited_set m"
  by (simp add: visited_set_def)

lemma explore_l_step:
  assumes g: "grid_ok m" and ok: "dirs_ok m" and w: "win m \<noteq> None" and a: "in_grid m a"
    and adj: "adjacent a b" and gd: "guard = in_grid m b"
    and wl: "in_grid m b \<Longrightarrow> (\<not> wall_here (the_cell m a)) = open_to m a b"
    and key: "key = dir_key a b"
  shows "\<exists>sm'. explore_l guard a wall_here key b (stack, m) = Inr sm' \<and> explored a (stack, m) sm' \<and>
     (in_grid m b \<and> open_to m a b \<longrightarrow> b \<in> visited_set (snd sm'))"
proof (cases "in_grid m b \<and> open_to m a b \<and> \<not> visited (the_cell m b)")
  case False
  then have "explore_l guard a wall_here key b (stack, m) = Inr (stack, m)"
    using gd wl cell_at_in[OF g, of "fst a" "snd a"] cell_at_in[OF g, of "fst b" "snd b"] a
    by (auto simp: explore_l_def)
  then show ?thesis using False explored_refl[OF g w] by (auto simp: visited_set_def)
next
  case True
  then have b: "in_grid m b" and o: "open_to m a b" and nv: "\<not> visited (the_cell m b)" by simp_all
  obtain win0 where w0: "win m = Some win0" using w by auto
  have ne: "a \<noteq> b" using adjacent_neq[OF adj] .
  let ?m1 = "upd m b (\<lambda>c. c\<lparr>visited := True\<rparr>)"
  let ?m3 = "?m1\<lparr>win := Some (win0\<lparr>moves := moves win0 @ [(a, b, False)]\<rparr>)\<rparr>"
  have s: "cell_set m (fst b) (snd b) (\<lambda>c. c\<lparr>visited := True\<rparr>) = Inr ?m1"
    using cell_set_in[OF g, of "fst b" "snd b"] b by simp
  have g1: "grid_ok ?m1" using g by simp
  have dm: "draw_move ?m1 a b False = Inr ?m3"
  proof -
    have "in_grid ?m1 a" "in_grid ?m1 b" "win ?m1 = Some win0" using a b w0 by simp_all
    from draw_move_red[OF g1 this] show ?thesis .
  qed
  have an: "animate ?m3 = Inr ?m3" by (simp add: animate_def)
  have ca: "the_cell ?m3 a = the_cell m a" using the_cell_upd[OF g b, of a] a ne by simp
  have vd: "valid_dirs (the_cell m a) key = Some True"
    using ok[unfolded dirs_ok_def, rule_format, of a b] a b adj o key by (simp add: open_to_def)
  have r: "explore_l guard a wall_here key b (stack, m) = Inr (stack @ [b], ?m3)"
    using gd wl[OF b] o b a nv cell_at_in[OF g, of "fst a" "snd a"] cell_at_in[OF g, of "fst b" "snd b"]
      cell_at_in[of ?m3 "fst a" "snd a"] g1 s dm an ca vd
    by (simp add: explore_l_def)
  have c: "the_cell ?m1 q = (if q = b then (the_cell m b)\<lparr>visited := True\<rparr> else the_cell m q)"
    if "in_grid m q" for q using the_cell_upd[OF g b that] .
  have sw: "same_walls m ?m1" "same_dirs m ?m1"
    unfolding same_walls_def same_dirs_def using c by auto
  have vs: "visited_set ?m3 = visited_set m \<union> set [b]"
    using c b by (auto simp: visited_set_def)
  have dr: "drawn ?m3 = drawn m @ map (\<lambda>b. (a, b, False)) [b]"
    by (simp add: drawn_def w0)
  have "explored a (stack, m) (stack @ [b], ?m3)"
    unfolding explored_def
    apply (simp only: fst_conv snd_conv)
    apply (intro conjI exI[of _ "[b]"])
    using g sw vs dr nv b adj o
    by (simp_all add: visited_set_def)
  then show ?thesis using r vs by auto
qed

lemma explored_solvable:
  assumes "solvable (snd sm)" "explored a sm sm'"
  shows "solvable (snd sm')" "in_grid (snd sm') q = in_grid (snd sm) q"
    "open_to (snd sm') p q = open_to (snd sm) p q"
    "num_cols (snd sm') = num_cols (snd sm)" "num_rows (snd sm') = num_rows (snd sm)"
    "visited_set (snd sm) \<subseteq> visited_set (snd sm')"
proof -
  from assms(2) have f: "same_frame (snd sm) (snd sm')" and w: "same_walls (snd sm) (snd sm')"
    and d: "same_dirs (snd sm) (snd sm')" and n: "win (snd sm') \<noteq> None"
    and v: "visited_set (snd sm) \<subseteq> visited_set (snd sm')"
    unfolding explored_def by auto
  show "solvable (snd sm')"
    using assms(1) f n same_walls_consistent[OF w f] dirs_ok_same[OF _ w f d]
    by (simp add: solvable_def same_frame_def)
  show "in_grid (snd sm') q = in_grid (snd sm) q" by (rule same_frame_in_grid[OF f])
  show "open_to (snd sm') p q = open_to (snd sm) p q"
    by (simp add: open_to_def same_walls_passages[OF w f])
  show "num_cols (snd sm') = num_cols (snd sm)" "num_rows (snd sm') = num_rows (snd sm)"
    using f by (simp_all add: same_frame_def)
  show "visited_set (snd sm) \<subseteq> visited_set (snd sm')" by (rule v)
qed

lemma explore_l_solvable:
  assumes s: "solvable (snd sm)" and a: "in_grid (snd sm) a"
    and adj: "adjacent a b" and gd: "guard = in_grid (snd sm) b"
    and wl: "in_grid (snd sm) b \<Longrightarrow> (\<not> wall_here (the_cell (snd sm) a)) = open_to (snd sm) a b"
    and key: "key = dir_key a b"
  shows "\<exists>sm'. explore_l guard a wall_here key b sm = Inr sm' \<and> explored a sm sm' \<and>
     (in_grid (snd sm) b \<and> open_to (snd sm) a b \<longrightarrow> b \<in> visited_set (snd sm'))"
proof -
  have "\<exists>sm'. explore_l guard a wall_here key b (fst sm, snd sm) = Inr sm' \<and>
     explored a (fst sm, snd sm) sm' \<and>
     (in_grid (snd sm) b \<and> open_to (snd sm) a b \<longrightarrow> b \<in> visited_set (snd sm'))"
    using s a adj gd wl key by (intro explore_l_step) (simp_all add: solvable_def)
  then show ?thesis by simp
qed

lemma pop_solve_l_step:
  assumes s: "solvable m" and a: "in_grid m (i, j)"
  shows "\<exists>sm'. pop_solve_l i j (stack, m) = Inr sm' \<and> explored (i, j) (stack, m) sm' \<and>
     (\<forall>b. in_grid m b \<and> adjacent (i, j) b \<and> open_to m (i, j) b \<longrightarrow> b \<in> visited_set (snd sm'))"
proof -
  have wc: "wall_consistent m" using s by (simp add: solvable_def)
  note wp = wall_is_passage[OF wc a]
  let ?sm = "(stack, m)"
  have s0: "solvable (snd ?sm)" using s by simp
  have "\<exists>sm'. explore_l (i - 1 \<ge> 0) (i, j) has_left_wall ''left'' (i - 1, j) ?sm = Inr sm' \<and>
     explored (i, j) ?sm sm' \<and>
     (in_grid (snd ?sm) (i - 1, j) \<and> open_to (snd ?sm) (i, j) (i - 1, j) \<longrightarrow> (i - 1, j) \<in> visited_set (snd sm'))"
    using a wp(1) by (intro explore_l_solvable[OF s0]) (auto simp: adjacent_def dir_key_def in_grid_def)
  then obtain sm1 where e1: "explore_l (i - 1 \<ge> 0) (i, j) has_left_wall ''left'' (i - 1, j) ?sm = Inr sm1"
    and x1: "explored (i, j) ?sm sm1"
    and v1: "in_grid m (i - 1, j) \<and> open_to m (i, j) (i - 1, j) \<longrightarrow> (i - 1, j) \<in> visited_set (snd sm1)"
    by auto
  note k1 = explored_solvable[OF s0 x1, simplified]
  have "\<exists>sm'. explore_l (i + 1 < num_cols (snd sm1)) (i, j) has_right_wall ''right'' (i + 1, j) sm1 = Inr sm' \<and>
     explored (i, j) sm1 sm' \<and>
     (in_grid (snd sm1) (i + 1, j) \<and> open_to (snd sm1) (i, j) (i + 1, j) \<longrightarrow> (i + 1, j) \<in> visited_set (snd sm'))"
    using a wp(2) k1(2-5) x1
    apply (intro explore_l_solvable[OF k1(1)])
    apply (auto simp: adjacent_def dir_key_def in_grid_def explored_def same_walls_def)
    done
  then obtain sm2 where e2: "explore_l (i + 1 < num_cols (snd sm1)) (i, j) has_right_wall ''right'' (i + 1, j) sm1 = Inr sm2"
    and x2: "explored (i, j) sm1 sm2"
    and v2: "in_grid m (i + 1, j) \<and> open_to m (i, j) (i + 1, j) \<longrightarrow> (i + 1, j) \<in> visited_set (snd sm2)"
    using k1(2,3) by auto
  note x02 = explored_trans[OF x1 x2]
  note k2 = explored_solvable[OF s0 x02, simplified]
  have "\<exists>sm'. explore_l (j - 1 \<ge> 0) (i, j) has_top_wall ''up'' (i, j - 1) sm2 = Inr sm' \<and>
     explored (i, j) sm2 sm' \<and>
     (in_grid (snd sm2) (i, j - 1) \<and> open_to (snd sm2) (i, j) (i, j - 1) \<longrightarrow> (i, j - 1) \<in> visited_set (snd sm'))"
    using a wp(3) k2(2-5) x02
    apply (intro explore_l_solvable[OF k2(1)])
    apply (auto simp: adjacent_def dir_key_def in_grid_def explored_def same_walls_def)
    done
  then obtain sm3 where e3: "explore_l (j - 1 \<ge> 0) (i, j) has_top_wall ''up'' (i, j - 1) sm2 = Inr sm3"
    and x3: "explored (i, j) sm2 sm3"
    and v3: "in_grid m (i, j - 1) \<and> open_to m (i, j) (i, j - 1) \<longrightarrow> (i, j - 1) \<in> visited_set (snd sm3)"
    using k2(2,3) by auto
  note x03 = explored_trans[OF x02 x3]
  note k3 = explored_solvable[OF s0 x03, simplified]
  have "\<exists>sm'. explore_l (j + 1 < num_rows (snd sm3)) (i, j) has_bottom_wall ''down'' (i, j + 1) sm3 = Inr sm' \<and>
     explored (i, j) sm3 sm' \<and>
     (in_grid (snd sm3) (i, j + 1) \<and> open_to (snd sm3) (i, j) (i, j + 1) \<longrightarrow> (i, j + 1) \<in> visited_set (snd sm'))"
    using a wp(4) k3(2-5) x03
    apply (intro explore_l_solvable[OF k3(1)])
    apply (auto simp: adjacent_def dir_key_def in_grid_def explored_def same_walls_def)
    done
  then obtain sm4 where e4: "explore_l (j + 1 < num_rows (snd sm3)) (i, j) has_bottom_wall ''down'' (i, j + 1) sm3 = Inr sm4"
    and x4: "explored (i, j) sm3 sm4"
    and v4: "in_grid m (i, j + 1) \<and> open_to m (i, j) (i, j + 1) \<longrightarrow> (i, j + 1) \<in> visited_set (snd sm4)"
    using k3(2,3) by auto
  note x04 = explored_trans[OF x03 x4]
  have m12: "visited_set (snd sm1) \<subseteq> visited_set (snd sm2)" using x2 by (auto simp: explored_def)
  have m23: "visited_set (snd sm2) \<subseteq> visited_set (snd sm3)" using x3 by (auto simp: explored_def)
  have m34: "visited_set (snd sm3) \<subseteq> visited_set (snd sm4)" using x4 by (auto simp: explored_def)
  have r: "pop_solve_l i j (stack, m) = Inr sm4"
    by (simp only: pop_solve_l_def e1 e2 e3 e4 bindE_Inr)
  have "b \<in> visited_set (snd sm4)" if "in_grid m b" "adjacent (i, j) b" "open_to m (i, j) b" for b
  proof -
    from that(2) consider "b = (i - 1, j)" | "b = (i + 1, j)" | "b = (i, j - 1)" | "b = (i, j + 1)"
      by (auto simp: adjacent_def)
    then show ?thesis using that v1 v2 v3 v4 m12 m23 m34 by cases auto
  qed
  then show ?thesis using r x04 by blast
qed

lemma explored_measure:
  assumes "explored a (stack, m) sm'"
  shows "2 * card (unvisited (snd sm')) + length (fst sm') \<le> 2 * card (unvisited m) + length stack"
proof -
  from assms obtain ts where f: "same_frame m (snd sm')" and st: "fst sm' = stack @ ts"
    and d: "distinct ts" and v: "visited_set (snd sm') = visited_set m \<union> set ts"
    and n: "set ts \<inter> visited_set m = {}" and i: "\<forall>b\<in>set ts. in_grid m b"
    unfolding explored_def by auto
  have u: "unvisited (snd sm') = unvisited m - set ts"
    using v same_frame_in_grid[OF f] by (auto simp: unvisited_def visited_set_def)
  have sub: "set ts \<subseteq> unvisited m" using n i by (auto simp: unvisited_def visited_set_def)
  have "card (unvisited m - set ts) = card (unvisited m) - card (set ts)"
    by (rule card_Diff_subset[OF _ sub]) simp
  moreover have "card (set ts) \<le> card (unvisited m)" by (rule card_mono[OF finite_unvisited sub])
  ultimately have "card (unvisited (snd sm')) + length ts = card (unvisited m)"
    using u distinct_card[OF d] by simp
  then show ?thesis using st by simp
qed

lemma solve_l_loop_rule:
  assumes s: "solvable m" and st: "\<forall>p\<in>set stack. in_grid m p" and i0: "I stack m"
    and step: "\<And>stack m i j sm'. solvable m \<Longrightarrow> \<forall>p\<in>set stack. in_grid m p \<Longrightarrow> I stack m \<Longrightarrow>
       stack \<noteq> [] \<Longrightarrow> last stack = (i, j) \<Longrightarrow>
       \<not> (i + 1 = num_cols m \<and> j + 1 = num_rows m) \<Longrightarrow>
       explored (i, j) (butlast stack, m) sm' \<Longrightarrow>
       (\<forall>b. in_grid m b \<and> adjacent (i, j) b \<and> open_to m (i, j) b \<longrightarrow> b \<in> visited_set (snd sm')) \<Longrightarrow>
       I (fst sm') (snd sm')"
  shows "\<exists>m' stack'. solve_l_loop stack m = Some (Inr m') \<and> I stack' m' \<and> solvable m' \<and>
     (stack' = [] \<or> last stack' = (num_cols m' - 1, num_rows m' - 1))"
  using s st i0
proof (induction "2 * card (unvisited m) + length stack" arbitrary: stack m rule: less_induct)
  case less
  show ?case
  proof (cases "stack = []")
    case True
    then show ?thesis using less.prems by (subst solve_l_loop.simps) auto
  next
    case False
    obtain i j where l: "last stack = (i, j)" by (cases "last stack")
    show ?thesis
    proof (cases "i + 1 = num_cols m \<and> j + 1 = num_rows m")
      case True
      then have "solve_l_loop stack m = Some (Inr m)"
        using False l by (subst solve_l_loop.simps) simp
      moreover have "last stack = (num_cols m - 1, num_rows m - 1)" using True l by auto
      ultimately show ?thesis using less.prems by blast
    next
      case ne: False
      have a: "in_grid m (i, j)" using less.prems(2) False l last_in_set[of stack] by auto
      from pop_solve_l_step[OF less.prems(1) a, of "butlast stack"] obtain sm' where
        p: "pop_solve_l i j (butlast stack, m) = Inr sm'"
        and x: "explored (i, j) (butlast stack, m) sm'"
        and c: "\<forall>b. in_grid m b \<and> adjacent (i, j) b \<and> open_to m (i, j) b \<longrightarrow> b \<in> visited_set (snd sm')"
        by blast
      have s0: "solvable (snd (butlast stack, m))" using less.prems(1) by simp
      note k = explored_solvable[OF s0 x, simplified]
      have i': "I (fst sm') (snd sm')"
        by (rule step[OF less.prems(1,2,3) False l ne x c])
      have "length (butlast stack) < length stack" using False by (simp add: length_greater_0_conv)
      then have me: "2 * card (unvisited (snd sm')) + length (fst sm') < 2 * card (unvisited m) + length stack"
        using explored_measure[OF x] by simp
      have st': "\<forall>p\<in>set (fst sm'). in_grid (snd sm') p"
        using x less.prems(2) k(2) in_set_butlastD[of _ stack]
        unfolding explored_def by (auto simp del: split_paired_All)
      from less.hyps[OF me k(1) st' i'] obtain m' stack' where
        r: "solve_l_loop (fst sm') (snd sm') = Some (Inr m')" "I stack' m'" "solvable m'"
          "stack' = [] \<or> last stack' = (num_cols m' - 1, num_rows m' - 1)"
        by blast
      have "solve_l_loop stack m = solve_l_loop (fst sm') (snd sm')"
        using False l ne p by (subst solve_l_loop.simps) (cases sm', auto)
      then show ?thesis using r by auto
    qed
  qed
qed

lemma open_to_iff: "open_to m a b \<longleftrightarrow> (a, b) \<in> passage_set m \<or> (b, a) \<in> passage_set m"
proof
  assume "open_to m a b"
  then show "(a, b) \<in> passage_set m \<or> (b, a) \<in> passage_set m"
    using edge_alt[of a b] by (auto simp: open_to_def)
next
  assume "(a, b) \<in> passage_set m \<or> (b, a) \<in> passage_set m"
  then show "open_to m a b"
    by (cases a; cases b) (auto simp: open_to_def passage_set_def edge_def)
qed

lemma open_to_sym: "open_to m a b \<Longrightarrow> open_to m b a"
  by (auto simp: open_to_iff)

lemma open_toD:
  assumes "open_to m a b"
  shows "in_grid m a" "in_grid m b" "adjacent a b"
  using assms by (cases a; cases b; auto simp: open_to_iff passage_set_def adjacent_def)+

lemma far_exit:
  assumes "0 < num_cols m" "0 < num_rows m" "\<not> num_cols m * num_rows m < 1000"
  shows "exit_of m \<noteq> (0, 0)" "adjacent (0, 0) n \<Longrightarrow> exit_of m \<noteq> n"
    "adjacent (0, 0) n \<Longrightarrow> adjacent n t \<Longrightarrow> exit_of m \<noteq> t"
proof -
  have k: "num_cols m - 1 = c \<Longrightarrow> num_rows m - 1 = r \<Longrightarrow> 1000 \<le> (c + 1) * (r + 1)" for c r
    using assms(3) by auto
  show "exit_of m \<noteq> (0, 0)" using k[of 0 0] by (auto simp: exit_of_def)
  show "exit_of m \<noteq> n" if "adjacent (0, 0) n"
    using that k[of "fst n" "snd n"] by (cases n) (auto simp: exit_of_def adjacent_def)
  show "exit_of m \<noteq> t" if "adjacent (0, 0) n" "adjacent n t"
    using that k[of "fst t" "snd t"] by (cases n; cases t) (auto simp: exit_of_def adjacent_def)
qed

lemma tree_on_reach: "tree_on r V E \<Longrightarrow> v \<in> V \<Longrightarrow> (r, v) \<in> sym_reach E"
  unfolding tree_on_def by blast

lemma entrance_has_passage:
  assumes "large_start m"
  shows "\<exists>b. open_to m (0, 0) b"
proof -
  have t: "tree_on (0, 0) {p. in_grid m p} (passage_set m)"
    using assms by (simp add: large_start_def Inv0_def)
  have x: "in_grid m (exit_of m)" using assms by (simp add: large_start_def in_grid_def exit_of_def)
  have ne: "exit_of m \<noteq> (0, 0)" using far_exit(1)[of m] assms by (simp add: large_start_def)
  have "((0, 0), exit_of m) \<in> sym_reach (passage_set m)" using tree_on_reach[OF t] x by simp
  then have r: "((0, 0), exit_of m) \<in> (passage_set m \<union> (passage_set m)\<inverse>)\<^sup>*"
    by (simp add: sym_reach_def)
  from r have "\<exists>z. ((0, 0), z) \<in> passage_set m \<union> (passage_set m)\<inverse>"
  proof (cases rule: converse_rtranclE)
    case base
    then show ?thesis using ne by simp
  next
    case (step y)
    then show ?thesis by (intro exI[of _ y])
  qed
  then show ?thesis by (auto simp: open_to_iff)
qed

lemma closed_covers:
  assumes t: "tree_on (0, 0) {p. in_grid m p} (passage_set m)" and z: "(0, 0) \<in> V"
    and cl: "\<forall>p\<in>V. \<forall>b. open_to m p b \<longrightarrow> b \<in> V" and q: "in_grid m q"
  shows "q \<in> V"
proof -
  have "((0, 0), q) \<in> (passage_set m \<union> (passage_set m)\<inverse>)\<^sup>*"
    using tree_on_reach[OF t, of q] q by (simp add: sym_reach_def)
  then show ?thesis
  proof (induction rule: rtrancl_induct)
    case base
    then show ?case by (rule z)
  next
    case (step y w)
    then have "open_to m y w" by (auto simp: open_to_iff)
    then show ?case using cl step.IH by blast
  qed
qed

lemma searching_step:
  assumes ls: "large_start m0" and inv: "searching m0 stack m" and ne: "stack \<noteq> []"
    and l: "last stack = (i, j)"
    and x: "explored (i, j) (butlast stack, m) sm'"
    and c: "\<forall>b. in_grid m b \<and> adjacent (i, j) b \<and> open_to m (i, j) b \<longrightarrow> b \<in> visited_set (snd sm')"
  shows "searching m0 (fst sm') (snd sm')"
proof -
  let ?O = "(0, 0) :: idx"
  let ?X = "exit_of m0"
  let ?m' = "snd sm'"
  from inv have f0: "same_frame m0 m" and w0: "same_walls m0 m" and d0: "same_dirs m0 m"
    by (simp_all add: searching_def)
  from inv obtain es where e1: "drawn m = drawn m0 @ map red es" and e2: "distinct (map snd es)"
    and e3: "visited_set m = snd ` set es" and e4: "\<forall>e\<in>set es. open_to m0 (fst e) (snd e)"
    and e5: "?O \<in> visited_set m \<longrightarrow>
           (\<exists>es1 a es2. es = es1 @ (a, ?O) # es2 \<and> ?X \<notin> snd ` set es1 \<and>
              (\<forall>e\<in>set es2. \<not> open_to m0 ?O (snd e)))"
    unfolding searching_def by blast
  from inv have ph: "(stack = [?O] \<and> visited_set m = {}) \<or>
      ((\<forall>b. open_to m0 ?O b \<longrightarrow> b \<in> visited_set m) \<and> set stack \<subseteq> visited_set m \<and>
       (?O \<notin> visited_set m \<longrightarrow> stack \<noteq> [] \<and> open_to m0 ?O (last stack) \<and>
          (\<forall>v\<in>visited_set m. open_to m0 ?O v)))"
    unfolding searching_def by blast
  from inv have cl: "\<forall>p\<in>visited_set m \<union> {?O}. p \<in> set stack \<or>
        (\<forall>b. open_to m0 p b \<longrightarrow> b \<in> visited_set m \<union> {?O})"
    unfolding searching_def by blast
  from x obtain ts where f1: "same_frame m ?m'" and w1: "same_walls m ?m'" and d1: "same_dirs m ?m'"
    and st: "fst sm' = butlast stack @ ts"
    and dr: "drawn ?m' = drawn m @ map (\<lambda>b. ((i, j), b, False)) ts"
    and dt: "distinct ts" and vs: "visited_set ?m' = visited_set m \<union> set ts"
    and dj: "set ts \<inter> visited_set m = {}"
    and tp: "\<forall>b\<in>set ts. in_grid m b \<and> adjacent (i, j) b \<and> open_to m (i, j) b"
    unfolding explored_def by auto
  have op: "open_to m p q = open_to m0 p q" for p q
    by (simp add: open_to_def same_walls_passages[OF w0 f0])
  have c': "b \<in> visited_set ?m'" if "open_to m0 (i, j) b" for b
    using c[rule_format, of b] that open_toD[of m "(i, j)" b] by (simp add: op)
  have tp': "open_to m0 (i, j) b" if "b \<in> set ts" for b using tp that by (simp add: op)
  have sz: "0 < num_cols m0" "0 < num_rows m0" "\<not> num_cols m0 * num_rows m0 < 1000"
    using ls by (simp_all add: large_start_def)
  note far = far_exit[OF sz]
  have stk: "set stack = insert (i, j) (set (butlast stack))"
    using ne l by (metis append_butlast_last_id list.simps(15) rotate1.simps(2) set_rotate1)
  let ?es' = "es @ map (\<lambda>b. ((i, j), b)) ts"
  have A1: "drawn ?m' = drawn m0 @ map red ?es'"
    by (simp add: dr e1 red_def comp_def)
  have A2: "distinct (map snd ?es')"
    using e2 dt dj e3 by (auto simp: comp_def)
  have A3: "visited_set ?m' = snd ` set ?es'"
    using vs e3 by (auto simp: image_Un image_image)
  have A4: "\<forall>e\<in>set ?es'. open_to m0 (fst e) (snd e)"
    using e4 tp' by auto
  have A5: "\<exists>es1 a es2. ?es' = es1 @ (a, ?O) # es2 \<and> ?X \<notin> snd ` set es1 \<and>
              (\<forall>e\<in>set es2. \<not> open_to m0 ?O (snd e))" if o: "?O \<in> visited_set ?m'"
  proof (cases "?O \<in> visited_set m")
    case True
    then obtain es1 a es2 where d: "es = es1 @ (a, ?O) # es2" "?X \<notin> snd ` set es1"
      "\<forall>e\<in>set es2. \<not> open_to m0 ?O (snd e)" using e5 by blast
    have n: "\<forall>b. open_to m0 ?O b \<longrightarrow> b \<in> visited_set m" using ph True by auto
    have "\<forall>e\<in>set (es2 @ map (\<lambda>b. ((i, j), b)) ts). \<not> open_to m0 ?O (snd e)"
      using d(3) n dj by auto
    moreover have "?es' = es1 @ (a, ?O) # (es2 @ map (\<lambda>b. ((i, j), b)) ts)" using d(1) by simp
    ultimately show ?thesis using d(2) by blast
  next
    case False
    then have ot: "?O \<in> set ts" using o vs by auto
    have "(i, j) \<noteq> ?O" using tp ot adjacent_neq[of "(i, j)" ?O] by auto
    then have ph2: "\<forall>b. open_to m0 ?O b \<longrightarrow> b \<in> visited_set m" "open_to m0 ?O (i, j)"
      "\<forall>v\<in>visited_set m. open_to m0 ?O v"
      using ph False l by auto
    from ot obtain t1 t2 where sp: "ts = t1 @ ?O # t2" by (auto simp: in_set_conv_decomp)
    have "?X \<noteq> v" if "v \<in> visited_set m" for v
      using far(2)[of v] open_toD(3)[of m0 ?O v] ph2(3) that by auto
    then have xv: "?X \<notin> visited_set m" by blast
    have "?X \<noteq> t" if "t \<in> set t1" for t
      using far(3)[of "(i, j)" t] open_toD(3)[OF ph2(2)] open_toD(3)[OF tp'[of t]] that sp by auto
    then have xt: "?X \<notin> set t1" by blast
    have "snd ` set (es @ map (\<lambda>b. ((i, j), b)) t1) = visited_set m \<union> set t1"
      by (simp add: e3 image_Un image_image)
    then have a: "?X \<notin> snd ` set (es @ map (\<lambda>b. ((i, j), b)) t1)"
      using xv xt by simp
    have b: "\<forall>e\<in>set (map (\<lambda>b. ((i, j), b)) t2). \<not> open_to m0 ?O (snd e)"
      using ph2(1) dj sp by auto
    have "?es' = (es @ map (\<lambda>b. ((i, j), b)) t1) @ ((i, j), ?O) # map (\<lambda>b. ((i, j), b)) t2"
      using sp by simp
    then show ?thesis using a b by blast
  qed
  have B: "(fst sm' = [?O] \<and> visited_set ?m' = {}) \<or>
      ((\<forall>b. open_to m0 ?O b \<longrightarrow> b \<in> visited_set ?m') \<and> set (fst sm') \<subseteq> visited_set ?m' \<and>
       (?O \<notin> visited_set ?m' \<longrightarrow> fst sm' \<noteq> [] \<and> open_to m0 ?O (last (fst sm')) \<and>
          (\<forall>v\<in>visited_set ?m'. open_to m0 ?O v)))"
  proof (cases "stack = [?O] \<and> visited_set m = {}")
    case True
    then have ij: "(i, j) = ?O" and s': "fst sm' = ts" and v': "visited_set ?m' = set ts"
      using l st vs by auto
    have n: "\<forall>b. open_to m0 ?O b \<longrightarrow> b \<in> visited_set ?m'" using c' ij by simp
    obtain b where "open_to m0 ?O b" using entrance_has_passage[OF ls] by blast
    then have "b \<in> set ts" using n v' by blast
    then have "ts \<noteq> []" by auto
    then have "last ts \<in> set ts" by simp
    then have "open_to m0 ?O (last ts)" using tp' ij by simp
    moreover have "\<forall>v\<in>set ts. open_to m0 ?O v" using tp' ij by simp
    ultimately show ?thesis using n s' v' \<open>ts \<noteq> []\<close> by simp
  next
    case False
    then have ph2: "\<forall>b. open_to m0 ?O b \<longrightarrow> b \<in> visited_set m" "set stack \<subseteq> visited_set m"
      "?O \<notin> visited_set m \<longrightarrow> open_to m0 ?O (last stack)"
      using ph by auto
    have 1: "\<forall>b. open_to m0 ?O b \<longrightarrow> b \<in> visited_set ?m'" using ph2(1) vs by auto
    have 2: "set (fst sm') \<subseteq> visited_set ?m'" using ph2(2) st vs stk by auto
    have 3: "?O \<in> visited_set ?m'"
    proof (cases "?O \<in> visited_set m")
      case True
      then show ?thesis using vs by simp
    next
      case False
      then have "open_to m0 (i, j) ?O" using ph2(3) l open_to_sym by simp
      then show ?thesis by (rule c')
    qed
    show ?thesis using 1 2 3 by simp
  qed
  have C: "\<forall>p\<in>visited_set ?m' \<union> {?O}. p \<in> set (fst sm') \<or>
        (\<forall>b. open_to m0 p b \<longrightarrow> b \<in> visited_set ?m' \<union> {?O})"
  proof
    fix p assume p: "p \<in> visited_set ?m' \<union> {?O}"
    show "p \<in> set (fst sm') \<or> (\<forall>b. open_to m0 p b \<longrightarrow> b \<in> visited_set ?m' \<union> {?O})"
    proof (cases "p \<in> set ts")
      case True
      then show ?thesis using st by simp
    next
      case False
      then have pv: "p \<in> visited_set m \<union> {?O}" using p vs by auto
      from cl[rule_format, OF pv] consider "p \<in> set (butlast stack)" | "p = (i, j)"
        | "\<forall>b. open_to m0 p b \<longrightarrow> b \<in> visited_set m \<union> {?O}"
        using stk by auto
      then show ?thesis
      proof cases
        case 1
        then show ?thesis using st by simp
      next
        case 2
        then show ?thesis using c' by simp
      next
        case 3
        then show ?thesis using vs by auto
      qed
    qed
  qed
  show ?thesis
    unfolding searching_def
    using same_frame_trans[OF f0 f1] same_walls_trans[OF w0 f0 w1] same_dirs_trans[OF d0 f0 d1]
      A1 A2 A3 A4 A5 B C
    by blast
qed

lemma red_lines_red: "red_lines (map red es) acc = acc @ es"
  by (induction es arbitrary: acc) (simp_all add: red_def)

lemma searching_start:
  assumes "large_start m0"
  shows "searching m0 [(0, 0)] m0"
proof -
  have g: "grid_ok m0" using assms by (simp add: large_start_def Inv0_def)
  have v: "visited_set m0 = {}" using assms by (simp add: large_start_def)
  have "drawn m0 = drawn m0 @ map red [] \<and> distinct (map snd ([] :: (idx \<times> idx) list)) \<and>
        visited_set m0 = snd ` set ([] :: (idx \<times> idx) list) \<and>
        (\<forall>e\<in>set ([] :: (idx \<times> idx) list). open_to m0 (fst e) (snd e)) \<and>
        ((0, 0) \<in> visited_set m0 \<longrightarrow>
           (\<exists>es1 a es2. [] = es1 @ (a, (0, 0)) # es2 \<and> exit_of m0 \<notin> snd ` set es1 \<and>
              (\<forall>e\<in>set es2. \<not> open_to m0 (0, 0) (snd e))))"
    using v by simp
  then have "\<exists>es. drawn m0 = drawn m0 @ map red es \<and> distinct (map snd es) \<and>
        visited_set m0 = snd ` set es \<and>
        (\<forall>e\<in>set es. open_to m0 (fst e) (snd e)) \<and>
        ((0, 0) \<in> visited_set m0 \<longrightarrow>
           (\<exists>es1 a es2. es = es1 @ (a, (0, 0)) # es2 \<and> exit_of m0 \<notin> snd ` set es1 \<and>
              (\<forall>e\<in>set es2. \<not> open_to m0 (0, 0) (snd e))))"
    by (rule exI[of _ "[]"])
  then show ?thesis unfolding searching_def using g v by simp
qed

lemma solve_l_large:
  assumes ls: "large_start m0"
  shows "\<exists>m' es1 a t es2. solve_l m0 0 0 = Some (Inr m') \<and>
     same_frame m0 m' \<and> same_walls m0 m' \<and> same_dirs m0 m' \<and>
     drawn m' = drawn m0 @ map red (es1 @ (a, (0, 0)) # t # es2) \<and>
     \<not> open_to m0 (0, 0) (snd t) \<and>
     visited_set m' = snd ` set (es1 @ (a, (0, 0)) # t # es2) \<and>
     exit_of m0 \<in> visited_set m' \<and>
     (\<forall>e\<in>set (es1 @ (a, (0, 0)) # t # es2). open_to m0 (fst e) (snd e))"
proof -
  let ?O = "(0, 0) :: idx"
  let ?X = "exit_of m0"
  have s: "solvable m0" using ls by (simp add: large_start_def Inv0_def solvable_def)
  have sz: "0 < num_cols m0" "0 < num_rows m0" "\<not> num_cols m0 * num_rows m0 < 1000"
    using ls by (simp_all add: large_start_def)
  note far = far_exit[OF sz]
  have st: "\<forall>p\<in>set [?O]. in_grid m0 p" using sz by (simp add: in_grid_def)
  have t: "tree_on ?O {p. in_grid m0 p} (passage_set m0)"
    using ls by (simp add: large_start_def Inv0_def)
  have "\<exists>m' stack'. solve_l_loop [?O] m0 = Some (Inr m') \<and> searching m0 stack' m' \<and> solvable m' \<and>
     (stack' = [] \<or> last stack' = (num_cols m' - 1, num_rows m' - 1))"
    by (rule solve_l_loop_rule[where I = "searching m0", OF s st searching_start[OF ls]])
       (rule searching_step[OF ls])
  then obtain m' stack' where r: "solve_l_loop [?O] m0 = Some (Inr m')"
    and inv: "searching m0 stack' m'"
    and en: "stack' = [] \<or> last stack' = (num_cols m' - 1, num_rows m' - 1)" by blast
  from inv have f0: "same_frame m0 m'" and w0: "same_walls m0 m'" and d0: "same_dirs m0 m'"
    by (simp_all add: searching_def)
  from inv obtain es where e1: "drawn m' = drawn m0 @ map red es"
    and e3: "visited_set m' = snd ` set es" and e4: "\<forall>e\<in>set es. open_to m0 (fst e) (snd e)"
    and e5: "?O \<in> visited_set m' \<longrightarrow>
           (\<exists>es1 a es2. es = es1 @ (a, ?O) # es2 \<and> ?X \<notin> snd ` set es1 \<and>
              (\<forall>e\<in>set es2. \<not> open_to m0 ?O (snd e)))"
    unfolding searching_def by blast
  from inv have ph: "(stack' = [?O] \<and> visited_set m' = {}) \<or>
      ((\<forall>b. open_to m0 ?O b \<longrightarrow> b \<in> visited_set m') \<and> set stack' \<subseteq> visited_set m' \<and>
       (?O \<notin> visited_set m' \<longrightarrow> stack' \<noteq> [] \<and> open_to m0 ?O (last stack') \<and>
          (\<forall>v\<in>visited_set m'. open_to m0 ?O v)))"
    unfolding searching_def by blast
  from inv have cl: "\<forall>p\<in>visited_set m' \<union> {?O}. p \<in> set stack' \<or>
        (\<forall>b. open_to m0 p b \<longrightarrow> b \<in> visited_set m' \<union> {?O})"
    unfolding searching_def by blast
  have en': "stack' = [] \<or> last stack' = ?X"
    using en f0 by (simp add: exit_of_def same_frame_def)
  have ph2: "set stack' \<subseteq> visited_set m'" and o: "?O \<in> visited_set m'"
  proof -
    have n1: "\<not> (stack' = [?O] \<and> visited_set m' = {})" using en' far(1) by auto
    then show "set stack' \<subseteq> visited_set m'" using ph by blast
    show "?O \<in> visited_set m'"
    proof (rule ccontr)
      assume "?O \<notin> visited_set m'"
      then have "stack' \<noteq> []" "open_to m0 ?O (last stack')" using ph n1 by blast+
      then show False using en' far(2)[of "last stack'"] open_toD(3)[of m0 ?O "last stack'"] by auto
    qed
  qed
  have xin: "in_grid m0 ?X" using sz by (simp add: in_grid_def exit_of_def)
  have xv: "?X \<in> visited_set m'"
  proof (cases "stack' = []")
    case True
    then have "\<forall>p\<in>visited_set m' \<union> {?O}. \<forall>b. open_to m0 p b \<longrightarrow> b \<in> visited_set m' \<union> {?O}"
      using cl by simp
    from closed_covers[OF t _ this xin] have "?X \<in> visited_set m' \<union> {?O}" by simp
    then show ?thesis using far(1) by auto
  next
    case False
    then have "?X \<in> set stack'" using en' last_in_set[of stack'] by auto
    then show ?thesis using ph2 by blast
  qed
  from e5 o obtain es1 a es2 where d: "es = es1 @ (a, ?O) # es2" "?X \<notin> snd ` set es1"
    "\<forall>e\<in>set es2. \<not> open_to m0 ?O (snd e)" by blast
  have "snd ` set es = snd ` set es1 \<union> {?O} \<union> snd ` set es2" unfolding d(1) by auto
  then have "?X \<in> snd ` set es2" using xv e3 d(2) far(1) by simp
  then obtain t es3 where es2: "es2 = t # es3" by (cases es2) auto
  have nt: "\<not> open_to m0 ?O (snd t)" using d(3) es2 by simp
  have esd: "es = es1 @ (a, ?O) # t # es3" using d(1) es2 by simp
  show ?thesis
    unfolding solve_l_def
    apply (rule exI[of _ m'], rule exI[of _ es1], rule exI[of _ a], rule exI[of _ t], rule exI[of _ es3])
    using r f0 w0 d0 e1 e3 e4 nt xv unfolding esd by simp
qed

lemma seed_obs [simp]:
  "drawn (m\<lparr>seed := x\<rparr>) = drawn m" "the_cell (m\<lparr>seed := x\<rparr>) p = the_cell m p"
  "in_grid (m\<lparr>seed := x\<rparr>) p = in_grid m p" "grid_cells (m\<lparr>seed := x\<rparr>) = grid_cells m"
  "visited_set (m\<lparr>seed := x\<rparr>) = visited_set m" "passage_set (m\<lparr>seed := x\<rparr>) = passage_set m"
  "reported_path (m\<lparr>seed := x\<rparr>) = reported_path m"
  by (simp_all add: drawn_def the_cell_def in_grid_def grid_cells_def visited_set_def
      passage_set_def open_right_def open_down_def reported_path_def)

lemma large_start_before_solve:
  assumes "Inv0 mc {p. in_grid mc p}" "dirs_ok mc" "unmarked mc mr" "visited_set mr = {}"
    "win mr \<noteq> None" "0 < num_cols mr" "0 < num_rows mr" "\<not> num_cols mr * num_rows mr < 1000"
  shows "large_start mr"
proof -
  have f: "same_frame mc mr" and w: "same_walls mc mr" using assms(3) by (simp_all add: unmarked_def)
  have "{p. in_grid mr p} = {p. in_grid mc p}" using same_frame_in_grid[OF f] by simp
  then have "Inv0 mr {p. in_grid mr p}" using Inv0_same[OF assms(1) w f] by simp
  then show ?thesis
    using dirs_ok_unmarked[OF assms(2,3)] assms(4-8) by (simp add: large_start_def)
qed

lemma large_maze_solved:
  assumes "0 < R" "0 < C" "\<not> C * R < 1000"
  shows "\<exists>m g' es1 a t es2.
     Maze_init seeder (Some \<lparr>moves = []\<rparr>) R C sx sy px py sd g = Some (Inr (m, g')) \<and>
     num_rows m = R \<and> num_cols m = C \<and>
     drawn m = map red (es1 @ (a, (0, 0)) # t # es2) \<and> \<not> open_to m (0, 0) (snd t) \<and>
     visited_set m = snd ` set (es1 @ (a, (0, 0)) # t # es2) \<and> (C - 1, R - 1) \<in> visited_set m \<and>
     (\<forall>e\<in>set (es1 @ (a, (0, 0)) # t # es2). open_to m (fst e) (snd e))"
proof -
  let ?w = "Some \<lparr>moves = []\<rparr>"
  from before_solve_total[OF assms(1,2), of ?w sx sy px py g] obtain mc mr g' where
    i: "Inv0 mc {p. in_grid mc p}" and lg: "dirs_ok mc" and u: "unmarked mc mr"
    and vr: "visited_set mr = {}" and d: "num_rows mr = R" "num_cols mr = C" "win mr = ?w"
    and cc: "create_cells (Maze_fields ?w R C sx sy px py) g = bindC (solve mr) (\<lambda>m. Some (Inr (m, g')))"
    using assms(3) by blast
  have ls: "large_start mr"
    using assms d by (intro large_start_before_solve[OF i lg u vr]) simp_all
  from solve_l_large[OF ls] obtain m' es1 a t es2 where
    r: "solve_l mr 0 0 = Some (Inr m')" and f: "same_frame mr m'" and w: "same_walls mr m'"
    and dr: "drawn m' = drawn mr @ map red (es1 @ (a, (0, 0)) # t # es2)"
    and nt: "\<not> open_to mr (0, 0) (snd t)"
    and vs: "visited_set m' = snd ` set (es1 @ (a, (0, 0)) # t # es2)"
    and xv: "exit_of mr \<in> visited_set m'"
    and op: "\<forall>e\<in>set (es1 @ (a, (0, 0)) # t # es2). open_to mr (fst e) (snd e)"
    by blast
  have s: "solve mr = Some (Inr m')" using assms(3) d r by (simp add: solve_def)
  let ?m = "m'\<lparr>seed := sd\<rparr>"
  let ?g = "case sd of None \<Rightarrow> g' | Some k \<Rightarrow> if k \<noteq> 0 then seeder k else g'"
  have mi: "Maze_init seeder ?w R C sx sy px py sd g = Some (Inr (?m, ?g))"
    by (simp add: Maze_init_def cc s)
  have o: "open_to ?m p q = open_to mr p q" for p q
    by (simp add: open_to_def same_walls_passages[OF w f])
  have dm: "num_rows ?m = R" "num_cols ?m = C" using f d by (simp_all add: same_frame_def)
  have d0: "drawn mr = []" using d(3) by (simp add: drawn_def)
  have x: "(C - 1, R - 1) \<in> visited_set ?m" using xv d by (simp add: exit_of_def)
  show ?thesis
    apply (rule exI[of _ ?m], rule exI[of _ ?g], rule exI[of _ es1], rule exI[of _ a],
        rule exI[of _ t], rule exI[of _ es2])
    using mi dm dr d0 nt vs x op by (simp add: o)
qed

text \<open>
  Claim C2, the iterative solver. On a grid of 1000 cells or more, with a window,
  \<^verbatim>\<open>solve\<close> returns without an exception and the exit is reached, but the lines left
  in red are not a path from the entrance to the exit: \<^verbatim>\<open>_solve_l\<close> moves back into the
  entrance \<open>(0, 0)\<close>, never undoes that move, and the cell that follows the entrance
  in the reported sequence has no passage to it.
\<close>

theorem iterative_solver_path_is_broken:
  assumes "0 < R" "0 < C" "\<not> C * R < 1000"
  shows "\<exists>m g' k. Maze_init seeder (Some \<lparr>moves = []\<rparr>) R C sx sy px py sd g = Some (Inr (m, g')) \<and>
     (C - 1, R - 1) \<in> set (reported_path m) \<and>
     0 < k \<and> Suc k < length (reported_path m) \<and> reported_path m ! k = (0, 0) \<and>
     (reported_path m ! k, reported_path m ! Suc k) \<notin> set (passages m) \<and>
     (reported_path m ! Suc k, reported_path m ! k) \<notin> set (passages m)"
proof -
  from large_maze_solved[OF assms, of seeder sx sy px py sd g] obtain m g' es1 a t es2 where
    mi: "Maze_init seeder (Some \<lparr>moves = []\<rparr>) R C sx sy px py sd g = Some (Inr (m, g'))"
    and dr: "drawn m = map red (es1 @ (a, (0, 0)) # t # es2)"
    and nt: "\<not> open_to m (0, 0) (snd t)"
    and vs: "visited_set m = snd ` set (es1 @ (a, (0, 0)) # t # es2)"
    and xv: "(C - 1, R - 1) \<in> visited_set m"
    by blast
  have p: "reported_path m = ((0, 0) # map snd es1) @ (0, 0) # snd t # map snd es2"
    unfolding reported_path_def dr red_lines_red by simp
  let ?k = "Suc (length es1)"
  have k: "reported_path m ! ?k = (0, 0)" "reported_path m ! Suc ?k = snd t"
    unfolding p by (simp_all add: nth_append)
  have l: "Suc ?k < length (reported_path m)" unfolding p by simp
  have x: "(C - 1, R - 1) \<in> set (reported_path m)"
    using xv unfolding vs p by auto
  have n: "((0, 0), snd t) \<notin> set (passages m)" "(snd t, (0, 0)) \<notin> set (passages m)"
    using nt by (simp_all add: set_passages open_to_iff)
  show ?thesis
    apply (rule exI[of _ m], rule exI[of _ g'], rule exI[of _ ?k])
    using mi x l k n by simp
qed

theorem iterative_solver_path_is_broken_witness:
  "\<exists>m g' k. Maze_init (\<lambda>k. []) (Some \<lparr>moves = []\<rparr>) 2 500 10 10 0 0 None [] = Some (Inr (m, g')) \<and>
     (499, 1) \<in> set (reported_path m) \<and>
     0 < k \<and> Suc k < length (reported_path m) \<and> reported_path m ! k = (0, 0) \<and>
     (reported_path m ! k, reported_path m ! Suc k) \<notin> set (passages m) \<and>
     (reported_path m ! Suc k, reported_path m ! k) \<notin> set (passages m)"
  using iterative_solver_path_is_broken[of 2 500 "\<lambda>k. []" 10 10 0 0 None "[]"]
  by simp

text \<open>
  Claim C5, the iterative solver. On a grid of 1000 cells or more, with a window,
  \<^verbatim>\<open>_solve_l\<close> never undoes a move: no line it draws is gray, and every cell it has
  marked visited, whether it leads to the exit or to a dead end, is on the reported
  path. The entrance itself is entered again, from one of its neighbours.
\<close>

theorem iterative_solver_never_retracts:
  assumes "0 < R" "0 < C" "\<not> C * R < 1000"
  shows "\<exists>m g'. Maze_init seeder (Some \<lparr>moves = []\<rparr>) R C sx sy px py sd g = Some (Inr (m, g')) \<and>
     list_all (\<lambda>l. \<not> snd (snd l)) (drawn m) \<and>
     list_all (\<lambda>p. p \<in> set (tl (reported_path m)))
       (filter (\<lambda>p. visited (the_cell m p)) (grid_cells m)) \<and>
     visited (the_cell m (0, 0)) \<and> (0, 0) \<in> set (tl (reported_path m))"
proof -
  from large_maze_solved[OF assms, of seeder sx sy px py sd g] obtain m g' es1 a t es2 where
    mi: "Maze_init seeder (Some \<lparr>moves = []\<rparr>) R C sx sy px py sd g = Some (Inr (m, g'))"
    and dr: "drawn m = map red (es1 @ (a, (0, 0)) # t # es2)"
    and vs: "visited_set m = snd ` set (es1 @ (a, (0, 0)) # t # es2)"
    by blast
  have p: "tl (reported_path m) = map snd (es1 @ (a, (0, 0)) # t # es2)"
    unfolding reported_path_def dr red_lines_red by simp
  have 1: "list_all (\<lambda>l. \<not> snd (snd l)) (drawn m)"
    unfolding dr by (auto simp: list_all_iff red_def)
  have v: "visited_set m = set (tl (reported_path m))" unfolding p vs by (simp add: image_Un)
  have 2: "list_all (\<lambda>p. p \<in> set (tl (reported_path m)))
       (filter (\<lambda>p. visited (the_cell m p)) (grid_cells m))"
    unfolding v[symmetric] by (auto simp: list_all_iff set_grid_cells visited_set_def)
  have 3: "(0, 0) \<in> set (tl (reported_path m))" unfolding p by simp
  then have "(0, 0) \<in> visited_set m" using v by simp
  then have 4: "visited (the_cell m (0, 0))" by (simp add: visited_set_def)
  show ?thesis using mi 1 2 3 4 by blast
qed

theorem iterative_solver_never_retracts_witness:
  "\<exists>m g'. Maze_init (\<lambda>k. []) (Some \<lparr>moves = []\<rparr>) 2 500 10 10 0 0 None [] = Some (Inr (m, g')) \<and>
     list_all (\<lambda>l. \<not> snd (snd l)) (drawn m) \<and>
     list_all (\<lambda>p. p \<in> set (tl (reported_path m)))
       (filter (\<lambda>p. visited (the_cell m p)) (grid_cells m)) \<and>
     visited (the_cell m (0, 0)) \<and> (0, 0) \<in> set (tl (reported_path m))"
  using iterative_solver_never_retracts[of 2 500 "\<lambda>k. []" 10 10 0 0 None "[]"]
  by simp

section \<open>The grid of one cell\<close>

text \<open>
  Claim C9. On a grid of one row and one column the cell \<open>(0, 0)\<close> loses its top wall
  (entrance) and its bottom wall (exit) and keeps the two others, with or without a
  window, and nothing random is drawn. Built without a window (\<^verbatim>\<open>win = None\<close>, which the
  constructor accepts), \<^verbatim>\<open>_solve_r\<close> raises \<^verbatim>\<open>AttributeError\<close> in its first statement,
  \<^verbatim>\<open>self._animate()\<close>, and the constructor ends in that exception: the solver does not
  succeed and no path is left. Built with a new window, \<^verbatim>\<open>_solve_r\<close> returns \<^verbatim>\<open>True\<close>
  and the path is the single cell \<open>[(0, 0)]\<close>; on any window it draws no line.
\<close>

theorem one_cell_maze_needs_window:
  "(\<exists>m3. before_solve (Maze_fields None 1 1 sx sy px py) g = Some (Inr (m3, g))
       \<and> \<not> has_top_wall (the_cell m3 (0, 0)) \<and> \<not> has_bottom_wall (the_cell m3 (0, 0))
       \<and> has_left_wall (the_cell m3 (0, 0)) \<and> has_right_wall (the_cell m3 (0, 0))
       \<and> solve_r m3 0 0 = Some (Inl AttributeError)
       \<and> solve m3 = Some (Inl AttributeError)
       \<and> Maze_init seeder None 1 1 sx sy px py sd g = Some (Inl AttributeError))
   \<and> (\<exists>m3 m4. before_solve (Maze_fields (Some \<lparr>moves = []\<rparr>) 1 1 sx sy px py) g = Some (Inr (m3, g))
       \<and> solve_r m3 0 0 = Some (Inr (True, m4))
       \<and> Maze_init seeder (Some \<lparr>moves = []\<rparr>) 1 1 sx sy px py sd g =
           Some (Inr (m4\<lparr>seed := sd\<rparr>,
             (case sd of None \<Rightarrow> g | Some k \<Rightarrow> if k \<noteq> 0 then seeder k else g)))
       \<and> \<not> has_top_wall (the_cell m4 (0, 0)) \<and> \<not> has_bottom_wall (the_cell m4 (0, 0))
       \<and> has_left_wall (the_cell m4 (0, 0)) \<and> has_right_wall (the_cell m4 (0, 0))
       \<and> reported_path m4 = [(0, 0)])
   \<and> (\<exists>m3 m4. before_solve (Maze_fields (Some \<lparr>moves = ms\<rparr>) 1 1 sx sy px py) g = Some (Inr (m3, g))
       \<and> solve_r m3 0 0 = Some (Inr (True, m4))
       \<and> Maze_init seeder (Some \<lparr>moves = ms\<rparr>) 1 1 sx sy px py sd g =
           Some (Inr (m4\<lparr>seed := sd\<rparr>,
             (case sd of None \<Rightarrow> g | Some k \<Rightarrow> if k \<noteq> 0 then seeder k else g)))
       \<and> drawn m4 = ms)"
  by (simp add: ctor_defs sum_ops break_walls_r_loop.simps solve_r.simps Let_def
      the_cell_def reported_path_def drawn_def)

section \<open>A maze without a window\<close>

text \<open>
  Claim C3. The constructor accepts \<^verbatim>\<open>win = None\<close>, and \<^verbatim>\<open>__draw_cell\<close> and \<^verbatim>\<open>Cell.draw\<close>
  test for it. \<^verbatim>\<open>_solve_r\<close> does not: its first statement is \<^verbatim>\<open>self._animate()\<close>, which
  calls \<^verbatim>\<open>redraw\<close> on the window. On a grid of one cell built without a window the
  constructor therefore ends in an \<^verbatim>\<open>AttributeError\<close> raised by the solver, whatever the
  sizes, the seed and the random state.
\<close>

theorem solver_faults_without_window:
  "Maze_init seeder None 1 1 sx sy px py sd g = Some (Inl AttributeError)"
  by (simp add: ctor_defs sum_ops break_walls_r_loop.simps solve_r.simps Let_def)

section \<open>The seed\<close>

text \<open>
  Claim C4. \<^verbatim>\<open>Maze.__init__\<close> calls \<^verbatim>\<open>random.seed(seed)\<close> after \<^verbatim>\<open>__create_cells\<close>, which
  has carved and solved the maze by then. Two constructions of a maze of two rows and two
  columns with the same seed \<open>42\<close>, entered with different states of the random module,
  give different walls and different paths; they agree only on the stored seed and on
  the random state they leave behind.
\<close>

theorem same_seed_different_mazes:
  "(case (Maze_init seeder (Some \<lparr>moves = []\<rparr>) 2 2 10 10 0 0 (Some 42) [0],
          Maze_init seeder (Some \<lparr>moves = []\<rparr>) 2 2 10 10 0 0 (Some 42) [1]) of
      (Some (Inr (m, h)), Some (Inr (m', h'))) \<Rightarrow>
        layout m \<noteq> layout m' \<and> reported_path m \<noteq> reported_path m'
        \<and> seed m = seed m' \<and> h = h'
    | _ \<Rightarrow> False)"
  by code_simp

end
